theory Spec2Isabelle
  imports Main "HOL-Library.AList"
begin

section \<open>JavaScript values\<close>

text \<open>
  The values that the persistent state hook of \<^verbatim>\<open>src/hooks/usePersistentState.ts\<close>
  handles: what \<^verbatim>\<open>JSON.parse\<close> returns, what \<^verbatim>\<open>window.INITIAL_APP_STATE\<close> may hold and
  what the caller passes as \<^verbatim>\<open>initialState\<close>. An object is the list of its own enumerable
  properties, in the order in which JavaScript enumerates them, together with its
  prototype: \<open>JObj fs\<close> is an object whose prototype is \<^verbatim>\<open>Object.prototype\<close>, as is every
  object that \<^verbatim>\<open>JSON.parse\<close>, an object literal or a spread creates, and \<open>JObjP fs p\<close> is an
  object with the prototype \<open>p\<close> (\<^verbatim>\<open>null\<close> for none). \<open>JObjectPrototype\<close> is \<^verbatim>\<open>Object.prototype\<close>
  itself and \<open>JFunction f\<close> a function named \<open>f\<close>: reading a property of an object can
  yield either. A number is an integer or \<^verbatim>\<open>NaN\<close> (only its truthiness is ever inspected).
  Symbols and bigints are left out: they are not state values.
\<close>

datatype jsval =
    JUndefined
  | JNull
  | JBool bool
  | JNum int
  | JNaN
  | JStr string
  | JArr "jsval list"
  | JObj "(string \<times> jsval) list"
  | JFunction string
  | JObjectPrototype
  | JObjP "(string \<times> jsval) list" jsval

fun typeof :: "jsval \<Rightarrow> string" where
  "typeof JUndefined = ''undefined''"
| "typeof JNull = ''object''"
| "typeof (JBool b) = ''boolean''"
| "typeof (JNum n) = ''number''"
| "typeof JNaN = ''number''"
| "typeof (JStr s) = ''string''"
| "typeof (JArr xs) = ''object''"
| "typeof (JObj fs) = ''object''"
| "typeof (JFunction f) = ''function''"
| "typeof JObjectPrototype = ''object''"
| "typeof (JObjP fs p) = ''object''"

fun truthy :: "jsval \<Rightarrow> bool" where
  "truthy JUndefined = False"
| "truthy JNull = False"
| "truthy (JBool b) = b"
| "truthy (JNum n) = (n \<noteq> 0)"
| "truthy JNaN = False"
| "truthy (JStr s) = (s \<noteq> [])"
| "truthy (JArr xs) = True"
| "truthy (JObj fs) = True"
| "truthy (JFunction f) = True"
| "truthy JObjectPrototype = True"
| "truthy (JObjP fs p) = True"

fun isArray :: "jsval \<Rightarrow> bool" where
  "isArray (JArr xs) = True"
| "isArray v = False"

text \<open>
  Property keys. \<open>index_key n\<close> is the key of the \<open>n\<close>-th element of an array. A key is an
  array index when it is the decimal numeral, without leading zeros, of a number below
  4294967295; an object enumerates its array index keys first, in ascending order, and
  then its other keys in the order in which they were created.
\<close>

fun index_key :: "nat \<Rightarrow> string" where
  "index_key n =
     (if n < 10 then [char_of (48 + n)]
      else index_key (n div 10) @ [char_of (48 + n mod 10)])"

definition index_value :: "string \<Rightarrow> nat" where
  "index_value k = foldl (\<lambda>n c. 10 * n + (of_char c - 48)) 0 k"

definition is_array_index :: "string \<Rightarrow> bool" where
  "is_array_index k \<longleftrightarrow>
     k \<noteq> [] \<and> list_all (\<lambda>c. c \<in> set ''0123456789'') k \<and>
     (k = ''0'' \<or> hd k \<noteq> CHR ''0'') \<and> index_value k < 4294967295"

text \<open>
  \<^verbatim>\<open>{ ...v }\<close> and \<^verbatim>\<open>for (key in v)\<close> with the \<^verbatim>\<open>hasOwnProperty\<close> test both range over the own
  enumerable properties of \<^verbatim>\<open>v\<close>: the fields of an object, the indices of an array (as
  decimal strings), nothing for \<^verbatim>\<open>null\<close> and \<^verbatim>\<open>undefined\<close>, and nothing for a function and for
  \<^verbatim>\<open>Object.prototype\<close>, whose own properties are not enumerable. A boolean, a number and a
  string are given no properties here: the merge never spreads or enumerates one, since
  \<^verbatim>\<open>defaults\<close> has type \<^verbatim>\<open>T extends object\<close> and \<^verbatim>\<open>loaded\<close> is spread only after the \<^verbatim>\<open>typeof\<close>
  test. An own property named \<^verbatim>\<open>__proto__\<close>, which \<^verbatim>\<open>JSON.parse\<close> creates for that key, is a
  field like any other.
\<close>

fun own_props :: "jsval \<Rightarrow> (string \<times> jsval) list" where
  "own_props (JObj fs) = fs"
| "own_props (JObjP fs p) = fs"
| "own_props (JArr xs) = zip (map index_key [0..<length xs]) xs"
| "own_props v = []"

text \<open>
  Reading \<^verbatim>\<open>o[k]\<close> yields the own property of \<^verbatim>\<open>o\<close> if there is one and otherwise what the
  prototype chain holds for \<^verbatim>\<open>k\<close>. \<^verbatim>\<open>Object.prototype\<close> holds the methods listed in
  \<open>object_prototype_methods\<close> and the accessor \<^verbatim>\<open>__proto__\<close>, whose getter returns the
  prototype of the object on which the read started; \<open>proto_get rp holder k\<close> continues
  such a read at \<open>holder\<close>, for an object whose prototype is \<open>rp\<close>. \<open>get_prop fs proto k\<close> is
  \<^verbatim>\<open>o[k]\<close> for the object with the own properties \<open>fs\<close> and the prototype \<open>proto\<close>.
  \<^verbatim>\<open>Array.prototype\<close> and \<^verbatim>\<open>Function.prototype\<close> are not modelled, so a chain is not followed
  through an array or a function; the merge reads properties of the object it has spread
  only, whose prototype is \<^verbatim>\<open>Object.prototype\<close> or, after an assignment to \<^verbatim>\<open>__proto__\<close>, an
  object that a nested merge returned.
\<close>

definition object_prototype_methods :: "string list" where
  "object_prototype_methods =
     [''constructor'', ''__defineGetter__'', ''__defineSetter__'', ''hasOwnProperty'',
      ''__lookupGetter__'', ''__lookupSetter__'', ''isPrototypeOf'', ''propertyIsEnumerable'',
      ''toString'', ''valueOf'', ''toLocaleString'']"

fun proto_get :: "jsval \<Rightarrow> jsval \<Rightarrow> string \<Rightarrow> jsval" where
  "proto_get rp JObjectPrototype k =
     (if k \<in> set object_prototype_methods then JFunction k
      else if k = ''__proto__'' then rp
      else JUndefined)"
| "proto_get rp (JObj fs) k =
     (case map_of fs k of Some v \<Rightarrow> v | None \<Rightarrow> proto_get rp JObjectPrototype k)"
| "proto_get rp (JObjP fs p) k =
     (case map_of fs k of Some v \<Rightarrow> v | None \<Rightarrow> proto_get rp p k)"
| "proto_get rp v k = JUndefined"

fun reaches_setter :: "jsval \<Rightarrow> string \<Rightarrow> bool" where
  "reaches_setter JObjectPrototype k = (k = ''__proto__'')"
| "reaches_setter (JObj fs) k = (map_of fs k = None \<and> k = ''__proto__'')"
| "reaches_setter (JObjP fs p) k = (map_of fs k = None \<and> reaches_setter p k)"
| "reaches_setter v k = False"

definition get_prop :: "(string \<times> jsval) list \<Rightarrow> jsval \<Rightarrow> string \<Rightarrow> jsval" where
  "get_prop fs proto k = (case map_of fs k of Some v \<Rightarrow> v | None \<Rightarrow> proto_get proto proto k)"

text \<open>
  Writing \<^verbatim>\<open>o[k] = v\<close>. If \<^verbatim>\<open>o\<close> has no own property \<^verbatim>\<open>k\<close> and the chain leads to the accessor
  \<^verbatim>\<open>__proto__\<close> of \<^verbatim>\<open>Object.prototype\<close>, its setter runs: it makes \<^verbatim>\<open>v\<close> the prototype of \<^verbatim>\<open>o\<close>
  when \<^verbatim>\<open>v\<close> is an object, a function or \<^verbatim>\<open>null\<close>, and does nothing otherwise, and \<^verbatim>\<open>o\<close> gets no
  own property. In every other case the own property is written: \<open>define_prop\<close> replaces
  the value of a key that exists and puts a new key at its place in the order of
  enumeration (\<open>insert_prop\<close>). \<open>set_prop\<close> returns the own properties and the prototype
  after the assignment, and \<open>make_object\<close> is the object that has them.
\<close>

fun insert_prop :: "string \<Rightarrow> 'v \<Rightarrow> (string \<times> 'v) list \<Rightarrow> (string \<times> 'v) list" where
  "insert_prop k v [] = [(k, v)]"
| "insert_prop k v ((k', v') # fs) =
     (if is_array_index k \<and> (\<not> is_array_index k' \<or> index_value k < index_value k')
      then (k, v) # (k', v') # fs
      else (k', v') # insert_prop k v fs)"

definition define_prop :: "string \<Rightarrow> 'v \<Rightarrow> (string \<times> 'v) list \<Rightarrow> (string \<times> 'v) list" where
  "define_prop k v fs = (if k \<in> fst ` set fs then AList.update k v fs else insert_prop k v fs)"

definition set_prop ::
  "(string \<times> jsval) list \<Rightarrow> jsval \<Rightarrow> string \<Rightarrow> jsval \<Rightarrow> (string \<times> jsval) list \<times> jsval" where
  "set_prop fs proto k v =
     (if k \<notin> fst ` set fs \<and> reaches_setter proto k
      then (if typeof v = ''object'' \<or> typeof v = ''function'' then (fs, v) else (fs, proto))
      else (define_prop k v fs, proto))"

definition make_object :: "(string \<times> jsval) list \<times> jsval \<Rightarrow> jsval" where
  "make_object r = (case r of (fs, proto) \<Rightarrow> if proto = JObjectPrototype then JObj fs else JObjP fs proto)"

section \<open>mergeDefaults\<close>

text \<open>
  \<^verbatim>\<open>mergeDefaults(loaded, defaults)\<close>, lines 7 to 29. The body of the \<^verbatim>\<open>for ... in\<close> loop is
  \<open>forIn\<close>: it walks the own properties of \<^verbatim>\<open>defaults\<close> and updates \<^verbatim>\<open>result\<close>, which starts
  as the spread of \<^verbatim>\<open>loaded\<close>: a new object with the own properties of \<^verbatim>\<open>loaded\<close> and the
  prototype \<^verbatim>\<open>Object.prototype\<close>. \<^verbatim>\<open>result\<close> is the pair of its own properties and its
  prototype; line 15 reads \<^verbatim>\<open>result[key]\<close> with \<open>get_prop\<close>, and lines 18 and 24 assign with
  \<open>set_prop\<close>.
\<close>

function mergeDefaults :: "jsval \<Rightarrow> jsval \<Rightarrow> jsval"
  and forIn :: "(string \<times> jsval) list \<Rightarrow> (string \<times> jsval) list \<times> jsval
                  \<Rightarrow> (string \<times> jsval) list \<times> jsval"
where
  "mergeDefaults loaded defaults =
     (if \<not> truthy loaded \<or> typeof loaded \<noteq> ''object'' then JObj (own_props defaults)
      else make_object (forIn (own_props defaults) (own_props loaded, JObjectPrototype)))"
| "forIn [] result = result"
| "forIn ((key, defaultValue) # rest) result =
     (let loadedValue = get_prop (fst result) (snd result) key in
      forIn rest
        (if loadedValue = JUndefined \<or> loadedValue = JNull
         then set_prop (fst result) (snd result) key defaultValue
         else if typeof defaultValue = ''object'' \<and> defaultValue \<noteq> JNull \<and> \<not> isArray defaultValue
         then set_prop (fst result) (snd result) key (mergeDefaults loadedValue defaultValue)
         else result))"
  by pat_completeness auto

text \<open>The recursion descends into the values of \<^verbatim>\<open>defaults\<close>, so it terminates.\<close>

fun props_weight :: "(string \<times> jsval) list \<Rightarrow> nat" where
  "props_weight [] = 0"
| "props_weight ((k, v) # fs) = 2 * size v + 2 + props_weight fs"

lemma props_weight_zip: "length ks = length xs \<Longrightarrow> props_weight (zip ks xs) \<le> 2 * size_list size xs"
  by (induction ks xs rule: list_induct2) auto

lemma props_weight_obj: "props_weight fs \<le> 2 * size_list (size_prod (\<lambda>x. 0) size) fs"
  by (induction fs rule: props_weight.induct) auto

lemma props_weight_own: "props_weight (own_props d) \<le> 2 * size d"
proof (cases d)
  case (JArr xs)
  have "props_weight (zip (map index_key [0..<length xs]) xs) \<le> 2 * size_list size xs"
    by (rule props_weight_zip) simp
  with JArr show ?thesis by simp
next
  case (JObj fs)
  with props_weight_obj [of fs] show ?thesis by simp
next
  case (JObjP fs p)
  with props_weight_obj [of fs] show ?thesis by simp
qed simp_all

termination mergeDefaults
  by (relation "measure (\<lambda>x. case x of Inl (l, d) \<Rightarrow> 2 * size d + 1 | Inr (fs, r) \<Rightarrow> props_weight fs)")
     (use props_weight_own in \<open>auto simp: less_Suc_eq_le\<close>)

section \<open>Field paths\<close>

text \<open>
  A field path is a list of field names. \<open>field_at\<close> follows it through the own fields of
  nested named-field structures only (an array is atomic for the merge), \<open>prop_at\<close> follows
  it through own properties of the loaded value, where an array has its indices as
  properties. \<open>distinct_keys\<close> says that no object lists a key twice, as is the case for
  every JavaScript object. \<open>ordinary_key\<close> holds of a key that \<^verbatim>\<open>Object.prototype\<close> has no
  property for, and \<open>plain_defaults\<close> of a value in which every object has the prototype
  \<^verbatim>\<open>Object.prototype\<close> and distinct keys that are all ordinary, at every depth outside
  arrays. \<open>own_or_undefined\<close> is what reading an ordinary key yields.
\<close>

fun field_at :: "jsval \<Rightarrow> string list \<Rightarrow> jsval option" where
  "field_at v [] = Some v"
| "field_at (JObj fs) (k # ks) = (case map_of fs k of None \<Rightarrow> None | Some w \<Rightarrow> field_at w ks)"
| "field_at (JObjP fs p) (k # ks) = (case map_of fs k of None \<Rightarrow> None | Some w \<Rightarrow> field_at w ks)"
| "field_at v (k # ks) = None"

fun prop_at :: "jsval \<Rightarrow> string list \<Rightarrow> jsval option" where
  "prop_at v [] = Some v"
| "prop_at v (k # ks) = (case map_of (own_props v) k of None \<Rightarrow> None | Some w \<Rightarrow> prop_at w ks)"

fun distinct_keys :: "jsval \<Rightarrow> bool" where
  "distinct_keys (JObj fs) = (distinct (map fst fs) \<and> (\<forall>v \<in> set (map snd fs). distinct_keys v))"
| "distinct_keys (JObjP fs p) =
     (distinct (map fst fs) \<and> (\<forall>v \<in> set (map snd fs). distinct_keys v) \<and> distinct_keys p)"
| "distinct_keys (JArr xs) = (\<forall>v \<in> set xs. distinct_keys v)"
| "distinct_keys v = True"

definition is_plain_object :: "jsval \<Rightarrow> bool" where
  "is_plain_object v = (typeof v = ''object'' \<and> v \<noteq> JNull \<and> \<not> isArray v)"

definition ordinary_key :: "string \<Rightarrow> bool" where
  "ordinary_key k \<longleftrightarrow> k \<notin> set object_prototype_methods \<and> k \<noteq> ''__proto__''"

fun plain_defaults :: "jsval \<Rightarrow> bool" where
  "plain_defaults (JObj fs) =
     (distinct (map fst fs) \<and>
      (\<forall>k \<in> set (map fst fs). k \<notin> set object_prototype_methods \<and> k \<noteq> ''__proto__'') \<and>
      (\<forall>v \<in> set (map snd fs). plain_defaults v))"
| "plain_defaults (JObjP fs p) = False"
| "plain_defaults JObjectPrototype = False"
| "plain_defaults v = True"

definition own_or_undefined :: "(string \<times> jsval) list \<Rightarrow> string \<Rightarrow> jsval" where
  "own_or_undefined fs k = (case map_of fs k of None \<Rightarrow> JUndefined | Some v \<Rightarrow> v)"

section \<open>The platform\<close>

text \<open>
  What the hook calls and does not define: \<^verbatim>\<open>window.INITIAL_APP_STATE\<close> (\<^verbatim>\<open>undefined\<close> when the
  page did not set it), \<^verbatim>\<open>localStorage.getItem\<close> (which throws, or returns \<^verbatim>\<open>null\<close> or the
  stored text), \<^verbatim>\<open>JSON.parse\<close> (which throws or returns a value), \<^verbatim>\<open>JSON.stringify\<close>
  (\<open>None\<close> when it throws its \<^verbatim>\<open>TypeError\<close>) and \<^verbatim>\<open>localStorage.setItem\<close>, whose outcome
  for its \<open>n\<close>-th call (counted from 0) is \<open>None\<close> when it returns and the exception
  otherwise. Every call that can be observed from outside is recorded as an \<open>effect\<close>.
\<close>

datatype js_error = DOMException string | TypeError | SyntaxError

datatype effect =
    ConsoleLog string
  | ConsoleError string
  | ConsoleWarn string
  | Alert string
  | GetItem string
  | SetItem string string "js_error option"

record platform =
  INITIAL_APP_STATE :: jsval
  getItem :: "string \<Rightarrow> js_error + string option"
  JSON_parse :: "string \<Rightarrow> js_error + jsval"
  JSON_stringify :: "jsval \<Rightarrow> string option"
  setItem :: "nat \<Rightarrow> string \<Rightarrow> string \<Rightarrow> js_error option"

fun writes :: "effect list \<Rightarrow> (string \<times> string \<times> js_error option) list" where
  "writes [] = []"
| "writes (SetItem k d r # es) = (k, d, r) # writes es"
| "writes (e # es) = writes es"

fun reads :: "effect list \<Rightarrow> string list" where
  "reads [] = []"
| "reads (GetItem k # es) = k # reads es"
| "reads (e # es) = reads es"

fun alerts :: "effect list \<Rightarrow> string list" where
  "alerts [] = []"
| "alerts (Alert m # es) = m # alerts es"
| "alerts (e # es) = alerts es"

fun console :: "effect list \<Rightarrow> effect list" where
  "console [] = []"
| "console (ConsoleLog m # es) = ConsoleLog m # console es"
| "console (ConsoleError m # es) = ConsoleError m # console es"
| "console (ConsoleWarn m # es) = ConsoleWarn m # console es"
| "console (e # es) = console es"

section \<open>usePersistentState\<close>

text \<open>
  The initialiser passed to \<^verbatim>\<open>useState\<close>, lines 38 to 56: \<open>initial_state_try\<close> is the
  \<^verbatim>\<open>try\<close> block, with \<open>Inl\<close> for an exception that leaves it, and \<open>initial_state\<close> adds the
  \<^verbatim>\<open>catch\<close> clause. \<^verbatim>\<open>if (storedValue)\<close> is false for \<^verbatim>\<open>null\<close> and for the empty string.
\<close>

definition initial_state_try :: "platform \<Rightarrow> string \<Rightarrow> jsval \<Rightarrow> effect list \<times> (js_error + jsval)" where
  "initial_state_try p key initialState =
     (if truthy (INITIAL_APP_STATE p)
      then ([ConsoleLog ''Loading state from portable data.js...''],
            Inr (mergeDefaults (INITIAL_APP_STATE p) initialState))
      else case getItem p key of
          Inl error \<Rightarrow> ([GetItem key], Inl error)
        | Inr None \<Rightarrow> ([GetItem key], Inr initialState)
        | Inr (Some storedValue) \<Rightarrow>
            if storedValue \<noteq> []
            then (case JSON_parse p storedValue of
                    Inl error \<Rightarrow> ([GetItem key], Inl error)
                  | Inr loadedState \<Rightarrow> ([GetItem key], Inr (mergeDefaults loadedState initialState)))
            else ([GetItem key], Inr initialState))"

definition initial_state :: "platform \<Rightarrow> string \<Rightarrow> jsval \<Rightarrow> effect list \<times> jsval" where
  "initial_state p key initialState =
     (case initial_state_try p key initialState of
        (es, Inr v) \<Rightarrow> (es, v)
      | (es, Inl error) \<Rightarrow>
          (es @ [ConsoleError ''Error reading state, falling back to initial.''], initialState))"

text \<open>
  One mounted instance of the hook: the React state, the two refs, whether the last run
  of the effect returned its cleanup function, and the part of the browser the instance
  acts on: the clock in milliseconds, the pending timers (identifier, time due, and the
  \<^verbatim>\<open>state\<close> that the callback closed over) in the order they were armed, and the effects so
  far. The argument \<^verbatim>\<open>key\<close> is the same on every render.
\<close>

record hook =
  hook_key :: string
  state :: jsval
  quotaErrorNotified :: bool
  saveTimeoutRef :: "nat option"
  has_cleanup :: bool
  clock :: nat
  next_timer :: nat
  timers :: "(nat \<times> nat \<times> jsval) list"
  effects :: "effect list"

definition clearTimeout :: "nat \<Rightarrow> hook \<Rightarrow> hook" where
  "clearTimeout i h = h\<lparr>timers := filter (\<lambda>(j, due, st). j \<noteq> i) (timers h)\<rparr>"

definition setTimeout :: "jsval \<Rightarrow> nat \<Rightarrow> hook \<Rightarrow> nat \<times> hook" where
  "setTimeout st delay h =
     (next_timer h,
      h\<lparr>timers := timers h @ [(next_timer h, clock h + delay, st)],
        next_timer := Suc (next_timer h)\<rparr>)"

text \<open>
  The timer callback, lines 68 to 81: \<open>save_catch\<close> is the \<^verbatim>\<open>catch\<close> clause, which acts
  only on a \<^verbatim>\<open>DOMException\<close> with one of the two quota names.
\<close>

definition is_quota_error :: "js_error \<Rightarrow> bool" where
  "is_quota_error error =
     (case error of
        DOMException name \<Rightarrow> name = ''QuotaExceededError'' \<or> name = ''NS_ERROR_DOM_QUOTA_REACHED''
      | _ \<Rightarrow> False)"

definition quota_alert :: string where
  "quota_alert = ''Storage limit exceeded. Your progress may not be saved unless you clear some chat history or images.''"

definition save_catch :: "js_error \<Rightarrow> hook \<Rightarrow> hook" where
  "save_catch error h =
     (if is_quota_error error then
        (if \<not> quotaErrorNotified h
         then h\<lparr>quotaErrorNotified := True,
                effects := effects h @
                  [ConsoleWarn ''LocalStorage quota exceeded.'',
                   Alert quota_alert]\<rparr>
         else h)
      else h)"

definition save_callback :: "platform \<Rightarrow> jsval \<Rightarrow> hook \<Rightarrow> hook" where
  "save_callback p st h =
     (case JSON_stringify p st of
        None \<Rightarrow> save_catch TypeError h
      | Some dataStr \<Rightarrow>
          (let r = setItem p (length (writes (effects h))) (hook_key h) dataStr;
               h' = h\<lparr>effects := effects h @ [SetItem (hook_key h) dataStr r]\<rparr>
           in case r of None \<Rightarrow> h' | Some error \<Rightarrow> save_catch error h'))"

text \<open>
  The effect, lines 61 to 88: \<open>effect_body\<close> is its body (the early return at line 62
  returns no cleanup function) and \<open>effect_cleanup\<close> is the function it returns.
  \<open>usePersistentState\<close> is the first render: the initialiser, then the effect. \<open>setState\<close>
  is an update that yields an object other than the current state object: the component
  renders again with the new state, and since the dependency \<^verbatim>\<open>state\<close> of line 88 changed,
  React calls the cleanup function of the previous run, if it returned one, and then the
  effect. An update that yields the current state object itself (the same object passed
  again, or an updater function that returns its argument) is the event \<open>SetSame\<close> below:
  React compares with \<^verbatim>\<open>Object.is\<close>, the dependencies are unchanged, and neither the cleanup
  function nor the effect runs. The state has the type \<^verbatim>\<open>T extends object\<close> (line 37), so
  the comparison is one of object identity, which the values of the model do not carry:
  the event says which of the two an update is, and two replacements in a row by values
  that are equal are replacements by two objects with the same content.
\<close>

definition effect_cleanup :: "hook \<Rightarrow> hook" where
  "effect_cleanup h =
     (case saveTimeoutRef h of None \<Rightarrow> h | Some i \<Rightarrow> clearTimeout i h)"

definition effect_body :: "hook \<Rightarrow> hook" where
  "effect_body h =
     (if quotaErrorNotified h then h\<lparr>has_cleanup := False\<rparr>
      else
        let h1 = (case saveTimeoutRef h of None \<Rightarrow> h | Some i \<Rightarrow> clearTimeout i h);
            (i, h2) = setTimeout (state h1) 1000 h1
        in h2\<lparr>saveTimeoutRef := Some i, has_cleanup := True\<rparr>)"

definition usePersistentState :: "platform \<Rightarrow> string \<Rightarrow> jsval \<Rightarrow> hook" where
  "usePersistentState p key initialState =
     (let (es, st) = initial_state p key initialState
      in effect_body
           \<lparr>hook_key = key, state = st, quotaErrorNotified = False, saveTimeoutRef = None,
            has_cleanup = False, clock = 0, next_timer = 1, timers = [], effects = es\<rparr>)"

definition setState :: "jsval \<Rightarrow> hook \<Rightarrow> hook" where
  "setState v h =
     (let h1 = h\<lparr>state := v\<rparr>;
          h2 = (if has_cleanup h1 then effect_cleanup h1 else h1)
      in effect_body h2)"

text \<open>
  Time passing: \<open>elapse p d\<close> advances the clock by \<open>d\<close> milliseconds and runs the callback
  of every timer that is due by then, in the order the timers were armed (all delays are
  1000, so that is the order in which they are due). The life of an instance is a list of
  events: updates that change the state object, updates that do not, and time passing.
  Unmounting, which calls the cleanup function one last time, ends it and is not an event.
\<close>

definition elapse :: "platform \<Rightarrow> nat \<Rightarrow> hook \<Rightarrow> hook" where
  "elapse p d h =
     (let t = clock h + d;
          due = filter (\<lambda>(i, at, st). at \<le> t) (timers h);
          h' = h\<lparr>clock := t, timers := filter (\<lambda>(i, at, st). \<not> at \<le> t) (timers h)\<rparr>
      in fold (\<lambda>(i, at, st). save_callback p st) due h')"

datatype event = SetState jsval | SetSame | Elapse nat

fun step :: "platform \<Rightarrow> event \<Rightarrow> hook \<Rightarrow> hook" where
  "step p (SetState v) h = setState v h"
| "step p SetSame h = h"
| "step p (Elapse d) h = elapse p d h"

definition run :: "platform \<Rightarrow> event list \<Rightarrow> hook \<Rightarrow> hook" where
  "run p evs h = fold (step p) evs h"

text \<open>
  A burst is a list of replacements by a new state object, each followed by the time that
  passes before the next event.
\<close>

definition burst :: "(jsval \<times> nat) list \<Rightarrow> event list" where
  "burst vds = concat (map (\<lambda>(v, d). [SetState v, Elapse d]) vds)"

text \<open>
  The invariants of an instance: at most one timer is pending, and it is the one that
  \<^verbatim>\<open>saveTimeoutRef\<close> holds; once \<^verbatim>\<open>quotaErrorNotified\<close> is set no timer is pending; and the
  effects so far hold one alert and end the writes with the failed one if the flag is set,
  and hold no alert and no write that failed for lack of space if it is not.
\<close>

definition one_pending :: "hook \<Rightarrow> bool" where
  "one_pending h \<longleftrightarrow>
     (timers h = [] \<or> (\<exists>i at st. timers h = [(i, at, st)] \<and> saveTimeoutRef h = Some i))"

definition store_inv :: "hook \<Rightarrow> bool" where
  "store_inv h \<longleftrightarrow> one_pending h \<and> (quotaErrorNotified h \<longrightarrow> timers h = [])"

definition is_quota_failure :: "string \<times> string \<times> js_error option \<Rightarrow> bool" where
  "is_quota_failure w = (case w of (k, d, None) \<Rightarrow> False | (k, d, Some e) \<Rightarrow> is_quota_error e)"

definition trace_ok :: "hook \<Rightarrow> bool" where
  "trace_ok h \<longleftrightarrow>
     (if quotaErrorNotified h
      then alerts (effects h) = [quota_alert] \<and>
           (\<exists>ws w. writes (effects h) = ws @ [w] \<and> is_quota_failure w \<and>
                   (\<forall>w' \<in> set ws. \<not> is_quota_failure w'))
      else alerts (effects h) = [] \<and> (\<forall>w \<in> set (writes (effects h)). \<not> is_quota_failure w))"

section \<open>mergeDefaults on a store\<close>

text \<open>
  Whether the result of the merge shares structure with \<^verbatim>\<open>defaults\<close> cannot be read off
  values, so here is \<^verbatim>\<open>mergeDefaults\<close> once more with objects and arrays living at
  addresses of a store. An object of the store has the prototype \<^verbatim>\<open>Object.prototype\<close>
  (\<open>HObject\<close>) or another one (\<open>HObjectP\<close>). A spread allocates one new object, with the
  prototype \<^verbatim>\<open>Object.prototype\<close>, whose fields hold the same values, references included, as
  the object that is spread. The store may hold cyclic structures, on which the function
  does not return: the first argument bounds the depth of the recursion, and \<open>None\<close> says
  that the bound was reached.
\<close>

type_synonym addr = nat

datatype hval =
    HUndefined
  | HNull
  | HBool bool
  | HNum int
  | HNaN
  | HStr string
  | HRef addr
  | HFunction string
  | HObjectPrototype

datatype hobj =
    HObject "(string \<times> hval) list"
  | HArray "hval list"
  | HObjectP "(string \<times> hval) list" hval

type_synonym heap = "hobj list"

definition cell :: "heap \<Rightarrow> addr \<Rightarrow> hobj option" where
  "cell h a = (if a < length h then Some (h ! a) else None)"

definition alloc :: "hobj \<Rightarrow> heap \<Rightarrow> addr \<times> heap" where
  "alloc ob h = (length h, h @ [ob])"

fun typeof_h :: "hval \<Rightarrow> string" where
  "typeof_h HUndefined = ''undefined''"
| "typeof_h HNull = ''object''"
| "typeof_h (HBool b) = ''boolean''"
| "typeof_h (HNum n) = ''number''"
| "typeof_h HNaN = ''number''"
| "typeof_h (HStr s) = ''string''"
| "typeof_h (HRef a) = ''object''"
| "typeof_h (HFunction f) = ''function''"
| "typeof_h HObjectPrototype = ''object''"

fun truthy_h :: "hval \<Rightarrow> bool" where
  "truthy_h HUndefined = False"
| "truthy_h HNull = False"
| "truthy_h (HBool b) = b"
| "truthy_h (HNum n) = (n \<noteq> 0)"
| "truthy_h HNaN = False"
| "truthy_h (HStr s) = (s \<noteq> [])"
| "truthy_h (HRef a) = True"
| "truthy_h (HFunction f) = True"
| "truthy_h HObjectPrototype = True"

definition isArray_h :: "heap \<Rightarrow> hval \<Rightarrow> bool" where
  "isArray_h h v = (case v of HRef a \<Rightarrow> (case cell h a of Some (HArray xs) \<Rightarrow> True | _ \<Rightarrow> False) | _ \<Rightarrow> False)"

definition own_props_h :: "heap \<Rightarrow> hval \<Rightarrow> (string \<times> hval) list" where
  "own_props_h h v =
     (case v of
        HRef a \<Rightarrow>
          (case cell h a of
             Some (HObject fs) \<Rightarrow> fs
           | Some (HObjectP fs p) \<Rightarrow> fs
           | Some (HArray xs) \<Rightarrow> zip (map index_key [0..<length xs]) xs
           | None \<Rightarrow> [])
      | _ \<Rightarrow> [])"

text \<open>
  \<open>get_h h v k\<close> is \<^verbatim>\<open>v[k]\<close>: the own property, and otherwise what the prototype chain of
  the object holds, as in \<open>get_prop\<close>. A chain in the store can be cyclic only if the store
  was built that way; the search along it is bounded by the number of objects in the
  store, which is enough for every chain that ends. The prototype of an array is not
  modelled: the merge reads no property of an array but its indices.
\<close>

definition proto_of :: "heap \<Rightarrow> hval \<Rightarrow> hval" where
  "proto_of h v =
     (case v of
        HRef a \<Rightarrow>
          (case cell h a of
             Some (HObject fs) \<Rightarrow> HObjectPrototype
           | Some (HObjectP fs p) \<Rightarrow> p
           | _ \<Rightarrow> HNull)
      | _ \<Rightarrow> HNull)"

fun proto_get_h :: "nat \<Rightarrow> heap \<Rightarrow> hval \<Rightarrow> hval \<Rightarrow> string \<Rightarrow> hval" where
  "proto_get_h 0 h rp holder k = HUndefined"
| "proto_get_h (Suc n) h rp holder k =
     (case holder of
        HObjectPrototype \<Rightarrow>
          (if k \<in> set object_prototype_methods then HFunction k
           else if k = ''__proto__'' then rp
           else HUndefined)
      | HRef a \<Rightarrow>
          (case map_of (own_props_h h holder) k of
             Some v \<Rightarrow> v
           | None \<Rightarrow> proto_get_h n h rp (proto_of h holder) k)
      | _ \<Rightarrow> HUndefined)"

fun reaches_setter_h :: "nat \<Rightarrow> heap \<Rightarrow> hval \<Rightarrow> string \<Rightarrow> bool" where
  "reaches_setter_h 0 h holder k = False"
| "reaches_setter_h (Suc n) h holder k =
     (case holder of
        HObjectPrototype \<Rightarrow> k = ''__proto__''
      | HRef a \<Rightarrow> map_of (own_props_h h holder) k = None \<and> reaches_setter_h n h (proto_of h holder) k
      | _ \<Rightarrow> False)"

definition get_h :: "heap \<Rightarrow> hval \<Rightarrow> string \<Rightarrow> hval" where
  "get_h h v k =
     (case map_of (own_props_h h v) k of
        Some w \<Rightarrow> w
      | None \<Rightarrow> proto_get_h (Suc (length h)) h (proto_of h v) (proto_of h v) k)"

text \<open>
  \<open>assign h a k v\<close> is \<^verbatim>\<open>o[k] = v\<close> for the object \<^verbatim>\<open>o\<close> at address \<open>a\<close>, as in \<open>set_prop\<close>: the
  setter of \<^verbatim>\<open>__proto__\<close> replaces the prototype, and any other assignment writes the own
  property. The merge assigns only to the object it has just allocated.
\<close>

definition assign :: "heap \<Rightarrow> addr \<Rightarrow> string \<Rightarrow> hval \<Rightarrow> heap" where
  "assign h a k v =
     (case cell h a of
        Some (HObject fs) \<Rightarrow>
          if k \<notin> fst ` set fs \<and> k = ''__proto__''
          then (if typeof_h v = ''object'' \<or> typeof_h v = ''function'' then h[a := HObjectP fs v] else h)
          else h[a := HObject (define_prop k v fs)]
      | Some (HObjectP fs p) \<Rightarrow>
          if k \<notin> fst ` set fs \<and> reaches_setter_h (Suc (length h)) h p k
          then (if typeof_h v = ''object'' \<or> typeof_h v = ''function'' then h[a := HObjectP fs v] else h)
          else h[a := HObjectP (define_prop k v fs) p]
      | _ \<Rightarrow> h)"

fun mergeDefaults_h :: "nat \<Rightarrow> hval \<Rightarrow> hval \<Rightarrow> heap \<Rightarrow> (hval \<times> heap) option"
  and forIn_h :: "nat \<Rightarrow> hval \<Rightarrow> string list \<Rightarrow> addr \<Rightarrow> heap \<Rightarrow> heap option"
where
  "mergeDefaults_h 0 loaded defaults h = None"
| "mergeDefaults_h (Suc n) loaded defaults h =
     (if \<not> truthy_h loaded \<or> typeof_h loaded \<noteq> ''object''
      then (let (result, h1) = alloc (HObject (own_props_h h defaults)) h in Some (HRef result, h1))
      else
        (let (result, h1) = alloc (HObject (own_props_h h loaded)) h in
         case forIn_h n defaults (map fst (own_props_h h1 defaults)) result h1 of
           None \<Rightarrow> None
         | Some h2 \<Rightarrow> Some (HRef result, h2)))"
| "forIn_h n defaults [] result h = Some h"
| "forIn_h n defaults (key # rest) result h =
     (let defaultValue = get_h h defaults key;
          loadedValue = get_h h (HRef result) key
      in if loadedValue = HUndefined \<or> loadedValue = HNull
         then forIn_h n defaults rest result (assign h result key defaultValue)
         else if typeof_h defaultValue = ''object'' \<and> defaultValue \<noteq> HNull \<and> \<not> isArray_h h defaultValue
         then (case mergeDefaults_h n loadedValue defaultValue h of
                 None \<Rightarrow> None
               | Some (v, h') \<Rightarrow> forIn_h n defaults rest result (assign h' result key v))
         else forIn_h n defaults rest result h)"

fun read_path :: "heap \<Rightarrow> hval \<Rightarrow> string list \<Rightarrow> hval" where
  "read_path h v [] = v"
| "read_path h v (k # ks) = read_path h (get_h h v k) ks"

text \<open>
  A value of the store represents a value of the first model when following its
  references gives that tree. \<open>repr c\<close> reads the store through a partial map \<open>c\<close> of its
  cells, so that a statement can say which cells a representation rests on; \<open>grows\<close>
  relates such a map and its store before a call to those after it.
\<close>

fun repr :: "(addr \<Rightarrow> hobj option) \<Rightarrow> hval \<Rightarrow> jsval \<Rightarrow> bool"
  and repr_fields :: "(addr \<Rightarrow> hobj option) \<Rightarrow> (string \<times> hval) list \<Rightarrow> (string \<times> jsval) list \<Rightarrow> bool"
  and repr_elems :: "(addr \<Rightarrow> hobj option) \<Rightarrow> hval list \<Rightarrow> jsval list \<Rightarrow> bool"
where
  "repr c hv JUndefined = (hv = HUndefined)"
| "repr c hv JNull = (hv = HNull)"
| "repr c hv (JBool b) = (hv = HBool b)"
| "repr c hv (JNum n) = (hv = HNum n)"
| "repr c hv JNaN = (hv = HNaN)"
| "repr c hv (JStr s) = (hv = HStr s)"
| "repr c hv (JFunction f) = (hv = HFunction f)"
| "repr c hv JObjectPrototype = (hv = HObjectPrototype)"
| "repr c hv (JArr xs) =
     (case hv of
        HRef a \<Rightarrow> (case c a of Some (HArray hxs) \<Rightarrow> repr_elems c hxs xs | _ \<Rightarrow> False)
      | _ \<Rightarrow> False)"
| "repr c hv (JObj fs) =
     (case hv of
        HRef a \<Rightarrow> (case c a of Some (HObject hfs) \<Rightarrow> repr_fields c hfs fs | _ \<Rightarrow> False)
      | _ \<Rightarrow> False)"
| "repr c hv (JObjP fs p) =
     (case hv of
        HRef a \<Rightarrow>
          (case c a of Some (HObjectP hfs hp) \<Rightarrow> repr_fields c hfs fs \<and> repr c hp p | _ \<Rightarrow> False)
      | _ \<Rightarrow> False)"
| "repr_fields c hfs [] = (hfs = [])"
| "repr_fields c hfs ((k, v) # fs) =
     (case hfs of
        [] \<Rightarrow> False
      | (hk, hv) # hfs' \<Rightarrow> hk = k \<and> repr c hv v \<and> repr_fields c hfs' fs)"
| "repr_elems c hxs [] = (hxs = [])"
| "repr_elems c hxs (v # xs) =
     (case hxs of [] \<Rightarrow> False | hv # hxs' \<Rightarrow> repr c hv v \<and> repr_elems c hxs' xs)"

definition grows :: "(addr \<Rightarrow> hobj option) \<Rightarrow> heap \<Rightarrow> (addr \<Rightarrow> hobj option) \<Rightarrow> heap \<Rightarrow> bool" where
  "grows c h c' h' \<longleftrightarrow>
     c \<subseteq>\<^sub>m c' \<and> c' \<subseteq>\<^sub>m cell h' \<and> length h \<le> length h' \<and> (\<forall>a<length h. c' a = c a)"

section \<open>Sample inputs\<close>

text \<open>
  Concrete platforms on which the model is run below. \<open>sample_json\<close> stands in for
  \<^verbatim>\<open>JSON.stringify\<close> there; it is a compact rendering that tells states apart, not the
  browser's function. \<open>sample_platform\<close> has no snapshot and an empty storage that accepts
  every write; the others differ from it in one field each.
\<close>

fun sample_json :: "jsval \<Rightarrow> string" where
  "sample_json JUndefined = ''null''"
| "sample_json JNull = ''null''"
| "sample_json (JBool b) = (if b then ''true'' else ''false'')"
| "sample_json (JNum n) = (if n < 0 then ''-'' else '''') @ index_key (nat \<bar>n\<bar>)"
| "sample_json JNaN = ''null''"
| "sample_json (JStr s) = [CHR 0x22] @ s @ [CHR 0x22]"
| "sample_json (JArr xs) = ''['' @ concat (map (\<lambda>v. sample_json v @ '','') xs) @ '']''"
| "sample_json (JObj fs) =
     ''{'' @ concat (map (\<lambda>(k, v). [CHR 0x22] @ k @ [CHR 0x22] @ '':'' @ sample_json v @ '','') fs) @ ''}''"
| "sample_json (JFunction f) = ''null''"
| "sample_json JObjectPrototype = ''{}''"
| "sample_json (JObjP fs p) =
     ''{'' @ concat (map (\<lambda>(k, v). [CHR 0x22] @ k @ [CHR 0x22] @ '':'' @ sample_json v @ '','') fs) @ ''}''"

definition sample_platform :: platform where
  "sample_platform =
     \<lparr>INITIAL_APP_STATE = JUndefined,
      getItem = (\<lambda>k. Inr None),
      JSON_parse = (\<lambda>s. Inl SyntaxError),
      JSON_stringify = (\<lambda>v. Some (sample_json v)),
      setItem = (\<lambda>n k d. None)\<rparr>"

definition full_platform :: platform where
  "full_platform = sample_platform\<lparr>setItem := (\<lambda>n k d. Some (DOMException ''QuotaExceededError''))\<rparr>"

definition blocked_platform :: platform where
  "blocked_platform = sample_platform\<lparr>setItem := (\<lambda>n k d. Some (DOMException ''SecurityError''))\<rparr>"

definition seeded_platform :: platform where
  "seeded_platform = sample_platform\<lparr>INITIAL_APP_STATE := JObj [(''n'', JNum 7)]\<rparr>"

definition corrupt_platform :: platform where
  "corrupt_platform = sample_platform\<lparr>getItem := (\<lambda>k. Inr (Some ''{oops''))\<rparr>"

definition shared_defaults_heap :: heap where
  "shared_defaults_heap = [HObject [(''a'', HRef 1), (''b'', HNum 5)], HObject [(''x'', HNum 0)]]"

section \<open>Properties of the merge\<close>

declare mergeDefaults.simps [simp del]

lemma map_of_insert_prop:
  "k \<notin> fst ` set fs \<Longrightarrow> map_of (insert_prop k v fs) = (map_of fs)(k \<mapsto> v)"
  by (induction fs) (auto simp: fun_eq_iff)

lemma map_of_define_prop: "map_of (define_prop k v fs) = (map_of fs)(k \<mapsto> v)"
  by (simp add: define_prop_def map_of_insert_prop update_conv')

lemma own_props_make_object [simp]: "own_props (make_object (fs, p)) = fs"
  by (simp add: make_object_def)

lemma map_of_set_prop_other:
  "j \<noteq> k \<Longrightarrow> map_of (fst (set_prop fs p k v)) j = map_of fs j"
  by (simp add: set_prop_def map_of_define_prop)

lemma map_of_set_prop_own:
  "map_of fs k = Some w \<Longrightarrow> map_of (fst (set_prop fs p k v)) k = Some v"
proof -
  assume "map_of fs k = Some w"
  then have "k \<in> fst ` set fs" by (metis domI dom_map_of_conv_image_fst)
  then show ?thesis by (simp add: set_prop_def map_of_define_prop)
qed

lemma get_prop_own: "map_of fs k = Some w \<Longrightarrow> get_prop fs p k = w"
  by (simp add: get_prop_def)

lemma map_of_forIn_notin:
  "k \<notin> fst ` set ds \<Longrightarrow> map_of (fst (forIn ds r)) k = map_of (fst r) k"
proof (induction ds arbitrary: r)
  case Nil
  then show ?case by simp
next
  case (Cons a ds)
  obtain key defaultValue where a: "a = (key, defaultValue)" by (cases a)
  with Cons.prems have ne: "k \<noteq> key" and notin: "k \<notin> fst ` set ds" by auto
  from ne have "\<And>v. map_of (fst (set_prop (fst r) (snd r) key v)) k = map_of (fst r) k"
    by (simp add: map_of_set_prop_other)
  then show ?case
    using a Cons.IH [OF notin] by (simp add: Let_def)
qed

lemma map_of_forIn_own:
  "distinct (map fst ds) \<Longrightarrow> map_of ds k = Some dv \<Longrightarrow> map_of (fst r) k = Some w \<Longrightarrow>
   map_of (fst (forIn ds r)) k =
     Some (if w = JUndefined \<or> w = JNull then dv
           else if is_plain_object dv then mergeDefaults w dv
           else w)"
proof (induction ds arbitrary: r)
  case Nil
  then show ?case by simp
next
  case (Cons a ds)
  obtain key defaultValue where a: "a = (key, defaultValue)" by (cases a)
  show ?case
  proof (cases "key = k")
    case True
    with Cons.prems a have dv: "defaultValue = dv" and notin: "k \<notin> fst ` set ds" by auto
    have g: "get_prop (fst r) (snd r) k = w" using Cons.prems(3) by (rule get_prop_own)
    have s: "\<And>v. map_of (fst (set_prop (fst r) (snd r) k v)) k = Some v"
      using Cons.prems(3) by (rule map_of_set_prop_own)
    show ?thesis
      using True dv a g s Cons.prems(3) map_of_forIn_notin [OF notin]
      by (simp add: Let_def is_plain_object_def)
  next
    case False
    with Cons.prems a have d: "distinct (map fst ds)" and m: "map_of ds k = Some dv" by auto
    have s: "\<And>v. map_of (fst (set_prop (fst r) (snd r) key v)) k = Some w"
      using False Cons.prems(3) by (simp add: map_of_set_prop_other)
    show ?thesis
      using a Cons.IH [OF d m] s Cons.prems(3) by (simp add: Let_def)
  qed
qed

lemma not_object_props:
  "\<not> truthy L \<or> typeof L \<noteq> ''object'' \<Longrightarrow> own_props L = []"
  by (cases L) auto

lemma merge_own_field:
  assumes "distinct (map fst (own_props D))" and "map_of (own_props D) k = Some dv"
    and "map_of (own_props L) k = Some w"
  shows "map_of (own_props (mergeDefaults L D)) k =
     Some (if w = JUndefined \<or> w = JNull then dv
           else if is_plain_object dv then mergeDefaults w dv
           else w)"
proof -
  from assms(3) have "own_props L \<noteq> []" by auto
  then have "\<not> (\<not> truthy L \<or> typeof L \<noteq> ''object'')" using not_object_props by blast
  then have "mergeDefaults L D = make_object (forIn (own_props D) (own_props L, JObjectPrototype))"
    by (simp add: mergeDefaults.simps)
  moreover obtain fs p where r: "forIn (own_props D) (own_props L, JObjectPrototype) = (fs, p)"
    by (cases "forIn (own_props D) (own_props L, JObjectPrototype)")
  moreover have "map_of (fst (forIn (own_props D) (own_props L, JObjectPrototype))) k =
     Some (if w = JUndefined \<or> w = JNull then dv
           else if is_plain_object dv then mergeDefaults w dv
           else w)"
    using assms by (simp add: map_of_forIn_own)
  ultimately show ?thesis by simp
qed

lemma field_at_Cons:
  "field_at v (k # ks) = Some d \<Longrightarrow>
   \<exists>dv. map_of (own_props v) k = Some dv \<and> field_at dv ks = Some d \<and> is_plain_object v"
  by (cases v) (auto split: option.splits simp: is_plain_object_def)

lemma merge_is_object: "\<exists>rs. mergeDefaults L D = JObj rs \<or> (\<exists>p. mergeDefaults L D = JObjP rs p)"
  by (cases "forIn (own_props D) (own_props L, JObjectPrototype)")
     (simp add: mergeDefaults.simps make_object_def)

lemma field_at_props:
  assumes "map_of (own_props (mergeDefaults L D)) k = Some w"
  shows "field_at (mergeDefaults L D) (k # ks) = field_at w ks"
  using merge_is_object [of L D] assms by auto

lemma distinct_keys_field:
  "distinct_keys D \<Longrightarrow> map_of (own_props D) k = Some dv \<Longrightarrow> distinct_keys dv"
proof (cases D)
  case (JArr xs)
  assume "distinct_keys D" "map_of (own_props D) k = Some dv"
  with JArr have "dv \<in> set xs" by (auto dest!: map_of_SomeD set_zip_rightD)
  with \<open>distinct_keys D\<close> JArr show ?thesis by simp
qed (auto dest!: map_of_SomeD)

lemma distinct_keys_own: "distinct_keys D \<Longrightarrow> is_plain_object D \<Longrightarrow> distinct (map fst (own_props D))"
  by (cases D) (auto simp: is_plain_object_def)

lemma merge_primitive: "typeof lv \<noteq> ''object'' \<Longrightarrow> mergeDefaults lv (JObj sub) = JObj sub"
  by (simp add: mergeDefaults.simps)

lemma merge_keeps_unlisted:
  assumes "k \<notin> fst ` set (own_props D)" and "map_of (own_props L) k = Some v"
  shows "map_of (own_props (mergeDefaults L D)) k = Some v"
proof -
  from assms(2) have "own_props L \<noteq> []" by auto
  then have "\<not> (\<not> truthy L \<or> typeof L \<noteq> ''object'')" using not_object_props by blast
  then have "mergeDefaults L D = make_object (forIn (own_props D) (own_props L, JObjectPrototype))"
    by (simp add: mergeDefaults.simps)
  moreover obtain fs p where "forIn (own_props D) (own_props L, JObjectPrototype) = (fs, p)"
    by (cases "forIn (own_props D) (own_props L, JObjectPrototype)")
  moreover have "map_of (fst (forIn (own_props D) (own_props L, JObjectPrototype))) k = Some v"
    using assms by (simp add: map_of_forIn_notin)
  ultimately show ?thesis by simp
qed

lemma not_index_letter: "c \<notin> set ''0123456789'' \<Longrightarrow> \<not> is_array_index (c # cs)"
  by (simp add: is_array_index_def)

lemmas merge_eval = mergeDefaults.simps get_prop_def set_prop_def define_prop_def make_object_def
  not_index_letter object_prototype_methods_def Let_def

lemma get_prop_ordinary:
  "ordinary_key k \<Longrightarrow> get_prop fs JObjectPrototype k = own_or_undefined fs k"
  by (simp add: get_prop_def own_or_undefined_def ordinary_key_def split: option.splits)

lemma set_prop_ordinary:
  "ordinary_key k \<Longrightarrow> set_prop fs JObjectPrototype k v = (define_prop k v fs, JObjectPrototype)"
  by (simp add: set_prop_def ordinary_key_def)

lemma own_or_undefined_define_other:
  "j \<noteq> k \<Longrightarrow> own_or_undefined (define_prop k v fs) j = own_or_undefined fs j"
  by (simp add: own_or_undefined_def map_of_define_prop)

lemma forIn_ordinary_proto:
  "\<forall>key \<in> fst ` set ds. ordinary_key key \<Longrightarrow> snd (forIn ds (r, JObjectPrototype)) = JObjectPrototype"
proof (induction ds arbitrary: r)
  case Nil
  then show ?case by simp
next
  case (Cons a ds)
  obtain key defaultValue where a: "a = (key, defaultValue)" by (cases a)
  with Cons.prems have ok: "ordinary_key key" and rest: "\<forall>key \<in> fst ` set ds. ordinary_key key"
    by auto
  show ?case
    using a Cons.IH [OF rest] by (simp add: Let_def set_prop_ordinary [OF ok])
qed

lemma map_of_forIn_ordinary:
  "distinct (map fst ds) \<Longrightarrow> \<forall>key \<in> fst ` set ds. ordinary_key key \<Longrightarrow> map_of ds k = Some dv \<Longrightarrow>
   map_of (fst (forIn ds (r, JObjectPrototype))) k =
     Some (if own_or_undefined r k = JUndefined \<or> own_or_undefined r k = JNull then dv
           else if is_plain_object dv then mergeDefaults (own_or_undefined r k) dv
           else own_or_undefined r k)"
proof (induction ds arbitrary: r)
  case Nil
  then show ?case by simp
next
  case (Cons a ds)
  obtain key defaultValue where a: "a = (key, defaultValue)" by (cases a)
  with Cons.prems have ok: "ordinary_key key" and rest: "\<forall>key \<in> fst ` set ds. ordinary_key key"
    by auto
  note g = get_prop_ordinary [OF ok] and s = set_prop_ordinary [OF ok]
  show ?case
  proof (cases "key = k")
    case True
    with Cons.prems a have dv: "defaultValue = dv" and notin: "k \<notin> fst ` set ds" by auto
    have keep: "own_or_undefined r k \<noteq> JUndefined \<Longrightarrow> map_of r k = Some (own_or_undefined r k)"
      by (auto simp: own_or_undefined_def split: option.splits)
    from ok True have okk: "ordinary_key k" by simp
    show ?thesis
      using True dv a keep map_of_forIn_notin [OF notin]
      by (simp add: Let_def get_prop_ordinary [OF okk] set_prop_ordinary [OF okk]
          is_plain_object_def map_of_define_prop)
  next
    case False
    with Cons.prems a have d: "distinct (map fst ds)" and m: "map_of ds k = Some dv" by auto
    have o: "\<And>v. own_or_undefined (define_prop key v r) k = own_or_undefined r k"
      using False by (simp add: own_or_undefined_define_other)
    show ?thesis
      using a Cons.IH [OF d rest m] o by (simp add: Let_def g s)
  qed
qed

lemma plain_defaults_object:
  "plain_defaults dv \<Longrightarrow> is_plain_object dv \<Longrightarrow> \<exists>fs. dv = JObj fs"
  by (cases dv) (auto simp: is_plain_object_def)

lemma plain_defaults_field:
  "plain_defaults (JObj fs) \<Longrightarrow> map_of fs k = Some dv \<Longrightarrow> plain_defaults dv"
  by (auto dest!: map_of_SomeD)

lemma plain_defaults_keys:
  "plain_defaults (JObj fs) \<Longrightarrow> distinct (map fst fs) \<and> (\<forall>key \<in> fst ` set fs. ordinary_key key)"
  by (auto simp: ordinary_key_def)

lemma merge_field_plain:
  assumes "plain_defaults (JObj fs)" and "map_of fs k = Some dv"
  shows "map_of (own_props (mergeDefaults L (JObj fs))) k =
     Some (if own_or_undefined (own_props L) k = JUndefined \<or> own_or_undefined (own_props L) k = JNull
           then dv
           else if is_plain_object dv then mergeDefaults (own_or_undefined (own_props L) k) dv
           else own_or_undefined (own_props L) k)"
proof (cases "\<not> truthy L \<or> typeof L \<noteq> ''object''")
  case True
  then have "own_props L = []" by (rule not_object_props)
  with True assms show ?thesis
    by (simp add: mergeDefaults.simps own_or_undefined_def)
next
  case False
  then have m: "mergeDefaults L (JObj fs) = make_object (forIn fs (own_props L, JObjectPrototype))"
    by (simp add: mergeDefaults.simps)
  obtain rs p where r: "forIn fs (own_props L, JObjectPrototype) = (rs, p)"
    by (cases "forIn fs (own_props L, JObjectPrototype)")
  from plain_defaults_keys [OF assms(1)] assms(2)
  have "map_of (fst (forIn fs (own_props L, JObjectPrototype))) k =
     Some (if own_or_undefined (own_props L) k = JUndefined \<or> own_or_undefined (own_props L) k = JNull
           then dv
           else if is_plain_object dv then mergeDefaults (own_or_undefined (own_props L) k) dv
           else own_or_undefined (own_props L) k)"
    by (simp add: map_of_forIn_ordinary)
  with m r show ?thesis by simp
qed

lemma merge_null: "L = JNull \<or> L = JUndefined \<Longrightarrow> mergeDefaults L (JObj fs) = JObj fs"
  by (auto simp: mergeDefaults.simps)

text \<open>
  For defaults that are plain all the way down (distinct keys, none of them the name of a
  property of \<^verbatim>\<open>Object.prototype\<close>) and every loaded value whatsoever, the merge has a value
  at every field path that the defaults have; and where the loaded value has nothing at
  that path, or holds \<^verbatim>\<open>null\<close> or \<^verbatim>\<open>undefined\<close> there, the merge holds the value of the
  defaults.
\<close>

lemma merge_has_every_plain_default_path:
  assumes "plain_defaults (JObj fs)" and "field_at (JObj fs) p = Some d"
  shows "(\<exists>r. field_at (mergeDefaults L (JObj fs)) p = Some r) \<and>
         (prop_at L p \<in> {None, Some JNull, Some JUndefined} \<longrightarrow>
            field_at (mergeDefaults L (JObj fs)) p = Some d)"
  using assms
proof (induction p arbitrary: L fs)
  case Nil
  then show ?case by (auto simp: merge_null)
next
  case (Cons k ks)
  from Cons.prems(2) obtain dv where dv: "map_of fs k = Some dv" and d: "field_at dv ks = Some d"
    by (auto split: option.splits)
  from Cons.prems(1) dv have pdv: "plain_defaults dv" by (rule plain_defaults_field)
  let ?lv = "own_or_undefined (own_props L) k"
  note mf = merge_field_plain [OF Cons.prems(1) dv, of L]
  show ?case
  proof (cases "?lv = JUndefined \<or> ?lv = JNull")
    case True
    with mf have "map_of (own_props (mergeDefaults L (JObj fs))) k = Some dv" by simp
    then have "field_at (mergeDefaults L (JObj fs)) (k # ks) = field_at dv ks"
      by (rule field_at_props)
    with d show ?thesis by simp
  next
    case False
    then have lv: "map_of (own_props L) k = Some ?lv"
      by (auto simp: own_or_undefined_def split: option.splits)
    then have pa: "prop_at L (k # ks) = prop_at ?lv ks" by simp
    show ?thesis
    proof (cases "is_plain_object dv")
      case True
      with pdv obtain fs' where fs': "dv = JObj fs'" using plain_defaults_object by blast
      from mf False True
      have "map_of (own_props (mergeDefaults L (JObj fs))) k = Some (mergeDefaults ?lv dv)"
        by simp
      then have "field_at (mergeDefaults L (JObj fs)) (k # ks) = field_at (mergeDefaults ?lv dv) ks"
        by (rule field_at_props)
      moreover note Cons.IH [of fs' ?lv] pdv d pa
      ultimately show ?thesis unfolding fs' by simp
    next
      case npo: False
      with d have ks: "ks = []" using field_at_Cons by (cases ks) blast+
      from mf False npo have "map_of (own_props (mergeDefaults L (JObj fs))) k = Some ?lv"
        by simp
      then have "field_at (mergeDefaults L (JObj fs)) (k # ks) = field_at ?lv ks"
        by (rule field_at_props)
      with ks lv False show ?thesis by simp
    qed
  qed
qed

text \<open>
  Claim C1. The merge is to have a value at every field path of the defaults, and the
  value of the defaults wherever the loaded value is missing the field. The code reads
  \<^verbatim>\<open>result[key]\<close> at line 15 without asking whether the property is the result's own, while
  line 13 does ask that of \<^verbatim>\<open>defaults\<close>. For the defaults \<^verbatim>\<open>{toString: 5, n: 1}\<close> and the
  loaded value \<^verbatim>\<open>{}\<close>, which has no field \<^verbatim>\<open>toString\<close>, the read yields the method inherited
  from \<^verbatim>\<open>Object.prototype\<close>, which is neither \<^verbatim>\<open>null\<close> nor \<^verbatim>\<open>undefined\<close>, and the default 5 is
  not an object: no branch assigns, and the merge is \<^verbatim>\<open>{n: 1}\<close>, with no field \<^verbatim>\<open>toString\<close>.
\<close>

theorem merge_skips_default_named_like_inherited_member:
  "field_at (JObj [(''toString'', JNum 5), (''n'', JNum 1)]) [''toString''] = Some (JNum 5) \<and>
   prop_at (JObj []) [''toString''] = None \<and>
   mergeDefaults (JObj []) (JObj [(''toString'', JNum 5), (''n'', JNum 1)]) = JObj [(''n'', JNum 1)] \<and>
   field_at (mergeDefaults (JObj []) (JObj [(''toString'', JNum 5), (''n'', JNum 1)])) [''toString'']
     = None"
  by (simp add: merge_eval)

text \<open>
  Claim C7. Every field that the loaded value has and the defaults do not have is in the
  merge with the value it had; in particular merging \<^verbatim>\<open>{a: 1, z: 9}\<close> into the defaults
  \<^verbatim>\<open>{a: 0}\<close> gives \<^verbatim>\<open>{a: 1, z: 9}\<close>.
\<close>

theorem merge_preserves_extra_fields:
  "(k \<notin> fst ` set (own_props D) \<longrightarrow> map_of (own_props L) k = Some v \<longrightarrow>
      map_of (own_props (mergeDefaults L D)) k = Some v) \<and>
   mergeDefaults (JObj [(''a'', JNum 1), (''z'', JNum 9)]) (JObj [(''a'', JNum 0)])
     = JObj [(''a'', JNum 1), (''z'', JNum 9)]"
proof
  show "k \<notin> fst ` set (own_props D) \<longrightarrow> map_of (own_props L) k = Some v \<longrightarrow>
      map_of (own_props (mergeDefaults L D)) k = Some v"
    using merge_keeps_unlisted by blast
  show "mergeDefaults (JObj [(''a'', JNum 1), (''z'', JNum 9)]) (JObj [(''a'', JNum 0)])
     = JObj [(''a'', JNum 1), (''z'', JNum 9)]"
    by (simp add: merge_eval)
qed

theorem merge_preserves_extra_fields_witness:
  "''extra'' \<notin> fst ` set (own_props (JObj [(''a'', JNum 0), (''b'', JBool True)])) \<and>
   map_of (own_props (JObj [(''extra'', JStr ''kept''), (''a'', JNum 4)])) ''extra''
     = Some (JStr ''kept'') \<and>
   map_of (own_props (mergeDefaults (JObj [(''extra'', JStr ''kept''), (''a'', JNum 4)])
       (JObj [(''a'', JNum 0), (''b'', JBool True)]))) ''extra'' = Some (JStr ''kept'')"
  using merge_preserves_extra_fields
    [of "''extra''" "JObj [(''a'', JNum 0), (''b'', JBool True)]"
        "JObj [(''extra'', JStr ''kept''), (''a'', JNum 4)]" "JStr ''kept''"]
  by simp

text \<open>
  Claim C10. Where, at some field path, the loaded value holds a value that is neither
  \<^verbatim>\<open>null\<close> nor \<^verbatim>\<open>undefined\<close> nor object-like (a boolean, a number, a string) and the defaults
  hold a nested structure that is not a sequence, the merge drops the loaded value at that
  path and holds the defaults' whole substructure there, so that every field path of the
  defaults below that point is present.
\<close>

theorem merge_replaces_mismatched_primitive:
  assumes "distinct_keys D" and "field_at D p = Some (JObj sub)"
    and "prop_at L p = Some lv" and "lv \<noteq> JNull" and "lv \<noteq> JUndefined"
    and "typeof lv \<noteq> ''object''"
  shows "field_at (mergeDefaults L D) p = Some (JObj sub)"
  using assms
proof (induction p arbitrary: L D)
  case Nil
  then show ?case by (simp add: merge_primitive)
next
  case (Cons k ks)
  from Cons.prems(2) obtain dv where dv: "map_of (own_props D) k = Some dv"
    and d: "field_at dv ks = Some (JObj sub)" and po: "is_plain_object D"
    using field_at_Cons by blast
  from Cons.prems(1) po have dist: "distinct (map fst (own_props D))" by (rule distinct_keys_own)
  from Cons.prems(1) dv have dkv: "distinct_keys dv" by (rule distinct_keys_field)
  from Cons.prems(3) obtain w where w: "map_of (own_props L) k = Some w"
    and pw: "prop_at w ks = Some lv"
    by (auto split: option.splits)
  have wnn: "\<not> (w = JUndefined \<or> w = JNull)"
    using pw Cons.prems(4,5) by (cases ks) auto
  have pdv: "is_plain_object dv"
  proof (cases ks)
    case Nil
    with d show ?thesis by (simp add: is_plain_object_def)
  next
    case (Cons k' ks')
    with d show ?thesis using field_at_Cons by blast
  qed
  from merge_own_field [OF dist dv w] wnn pdv
  have "map_of (own_props (mergeDefaults L D)) k = Some (mergeDefaults w dv)" by simp
  then have "field_at (mergeDefaults L D) (k # ks) = field_at (mergeDefaults w dv) ks"
    by (rule field_at_props)
  with Cons.IH [OF dkv d pw Cons.prems(4,5,6)] show ?case by simp
qed

theorem merge_replaces_mismatched_primitive_witness:
  "distinct_keys (JObj [(''prefs'', JObj [(''theme'', JStr ''dark''), (''size'', JNum 12)])]) \<and>
   field_at (JObj [(''prefs'', JObj [(''theme'', JStr ''dark''), (''size'', JNum 12)])]) [''prefs'']
     = Some (JObj [(''theme'', JStr ''dark''), (''size'', JNum 12)]) \<and>
   prop_at (JObj [(''prefs'', JNum 7)]) [''prefs''] = Some (JNum 7) \<and>
   JNum 7 \<noteq> JNull \<and> JNum 7 \<noteq> JUndefined \<and> typeof (JNum 7) \<noteq> ''object'' \<and>
   field_at (mergeDefaults (JObj [(''prefs'', JNum 7)])
       (JObj [(''prefs'', JObj [(''theme'', JStr ''dark''), (''size'', JNum 12)])])) [''prefs'']
     = Some (JObj [(''theme'', JStr ''dark''), (''size'', JNum 12)])"
proof -
  let ?sub = "[(''theme'', JStr ''dark''), (''size'', JNum 12)]"
  let ?D = "JObj [(''prefs'', JObj ?sub)]"
  let ?L = "JObj [(''prefs'', JNum 7)]"
  have h1: "distinct_keys ?D" by simp
  have h2: "field_at ?D [''prefs''] = Some (JObj ?sub)" by simp
  have h3: "prop_at ?L [''prefs''] = Some (JNum 7)" by simp
  have h4: "JNum 7 \<noteq> JNull" and h5: "JNum 7 \<noteq> JUndefined" and h6: "typeof (JNum 7) \<noteq> ''object''"
    by simp_all
  from merge_replaces_mismatched_primitive [OF h1 h2 h3 h4 h5 h6] h1 h2 h3 h4 h5 h6
  show ?thesis by blast
qed

section \<open>Properties of the initial state\<close>

lemma writes_append [simp]: "writes (xs @ ys) = writes xs @ writes ys"
  by (induction xs rule: writes.induct) auto

lemma alerts_append [simp]: "alerts (xs @ ys) = alerts xs @ alerts ys"
  by (induction xs rule: alerts.induct) auto

lemma console_append [simp]: "console (xs @ ys) = console xs @ console ys"
  by (induction xs rule: console.induct) auto

lemma reads_append [simp]: "reads (xs @ ys) = reads xs @ reads ys"
  by (induction xs rule: reads.induct) auto

lemma initial_state_quiet:
  "alerts (fst (initial_state p key init)) = [] \<and> writes (fst (initial_state p key init)) = []"
  by (simp add: initial_state_def initial_state_try_def split: sum.splits option.splits)

lemma mount_fields:
  "effects (usePersistentState p key init) = fst (initial_state p key init)"
  "state (usePersistentState p key init) = snd (initial_state p key init)"
  "timers (usePersistentState p key init) = [(1, 1000, snd (initial_state p key init))]"
  "\<not> quotaErrorNotified (usePersistentState p key init)"
  "clock (usePersistentState p key init) = 0"
  by (simp_all add: usePersistentState_def effect_body_def setTimeout_def Let_def split: prod.splits)

lemma mount_key: "hook_key (usePersistentState p key init) = key"
  by (simp add: usePersistentState_def effect_body_def setTimeout_def Let_def split: prod.splits)

text \<open>
  Claim C4. If a bootstrap snapshot is present when the store is constructed (the test of
  the code is that \<^verbatim>\<open>window.INITIAL_APP_STATE\<close> is truthy, which every object and array is),
  the durable backend is not read during initialisation and the initial state is the merge
  of the snapshot with the defaults.
\<close>

theorem bootstrap_snapshot_wins:
  assumes "truthy (INITIAL_APP_STATE p)"
  shows "state (usePersistentState p key init) = mergeDefaults (INITIAL_APP_STATE p) init \<and>
         reads (effects (usePersistentState p key init)) = []"
  using assms by (simp add: mount_fields initial_state_def initial_state_try_def)

theorem bootstrap_snapshot_wins_witness:
  "truthy (INITIAL_APP_STATE seeded_platform) \<and>
   state (usePersistentState seeded_platform ''app'' (JObj [(''n'', JNum 0), (''m'', JBool True)]))
     = JObj [(''n'', JNum 7), (''m'', JBool True)] \<and>
   reads (effects (usePersistentState seeded_platform ''app'' (JObj [(''n'', JNum 0), (''m'', JBool True)]))) = []"
proof -
  have h: "truthy (INITIAL_APP_STATE seeded_platform)"
    by (simp add: seeded_platform_def sample_platform_def)
  have m: "mergeDefaults (INITIAL_APP_STATE seeded_platform) (JObj [(''n'', JNum 0), (''m'', JBool True)])
      = JObj [(''n'', JNum 7), (''m'', JBool True)]"
    by (simp add: seeded_platform_def sample_platform_def merge_eval)
  from bootstrap_snapshot_wins [OF h, of "''app''" "JObj [(''n'', JNum 0), (''m'', JBool True)]"] h m
  show ?thesis by simp
qed

text \<open>
  Claim C5. If no bootstrap snapshot is present and the backend holds text that does not
  parse, or the read of the backend throws, the initialiser returns the defaults
  themselves: the exception ends in the \<^verbatim>\<open>catch\<close> clause.
\<close>

theorem unreadable_storage_falls_back_to_defaults:
  assumes "\<not> truthy (INITIAL_APP_STATE p)"
    and "getItem p key = Inl e \<or> (getItem p key = Inr (Some text) \<and> JSON_parse p text = Inl e)"
  shows "snd (initial_state p key init) = init \<and> state (usePersistentState p key init) = init"
  using assms
  by (auto simp: mount_fields initial_state_def initial_state_try_def)

theorem unreadable_storage_falls_back_to_defaults_witness:
  "\<not> truthy (INITIAL_APP_STATE corrupt_platform) \<and>
   getItem corrupt_platform ''app'' = Inr (Some ''{oops'') \<and>
   JSON_parse corrupt_platform ''{oops'' = Inl SyntaxError \<and>
   state (usePersistentState corrupt_platform ''app'' (JObj [(''n'', JNum 0)])) = JObj [(''n'', JNum 0)]"
proof -
  have h1: "\<not> truthy (INITIAL_APP_STATE corrupt_platform)"
    by (simp add: corrupt_platform_def sample_platform_def)
  have g: "getItem corrupt_platform ''app'' = Inr (Some ''{oops'')"
    and q: "JSON_parse corrupt_platform ''{oops'' = Inl SyntaxError"
    by (simp_all add: corrupt_platform_def sample_platform_def)
  then have h2: "getItem corrupt_platform ''app'' = Inl SyntaxError \<or>
      (getItem corrupt_platform ''app'' = Inr (Some ''{oops'') \<and> JSON_parse corrupt_platform ''{oops'' = Inl SyntaxError)"
    by simp
  from unreadable_storage_falls_back_to_defaults [OF h1 h2, of "JObj [(''n'', JNum 0)]"] h1 g q
  show ?thesis by simp
qed

section \<open>Properties of the debounced write\<close>

lemma setState_normal:
  assumes "one_pending h" and "\<not> quotaErrorNotified h"
  shows "timers (setState v h) = [(next_timer h, clock h + 1000, v)]"
    and "saveTimeoutRef (setState v h) = Some (next_timer h)"
    and "effects (setState v h) = effects h"
    and "hook_key (setState v h) = hook_key h"
    and "\<not> quotaErrorNotified (setState v h)"
    and "clock (setState v h) = clock h"
    and "state (setState v h) = v"
  using assms
  by (auto simp: one_pending_def setState_def effect_body_def effect_cleanup_def clearTimeout_def
      setTimeout_def Let_def split: option.splits)

lemma setState_notified:
  assumes "quotaErrorNotified h" and "timers h = []"
  shows "timers (setState v h) = []"
    and "effects (setState v h) = effects h"
    and "hook_key (setState v h) = hook_key h"
    and "quotaErrorNotified (setState v h)"
  using assms
  by (auto simp: setState_def effect_body_def effect_cleanup_def clearTimeout_def
      Let_def split: option.splits)

lemma elapse_not_due:
  assumes "timers h = [(i, at, st)]" and "clock h + d < at"
  shows "timers (elapse p d h) = timers h"
    and "saveTimeoutRef (elapse p d h) = saveTimeoutRef h"
    and "effects (elapse p d h) = effects h"
    and "hook_key (elapse p d h) = hook_key h"
    and "quotaErrorNotified (elapse p d h) = quotaErrorNotified h"
    and "clock (elapse p d h) = clock h + d"
  using assms by (auto simp: elapse_def Let_def)

lemma elapse_idle:
  assumes "timers h = []"
  shows "timers (elapse p d h) = []"
    and "saveTimeoutRef (elapse p d h) = saveTimeoutRef h"
    and "effects (elapse p d h) = effects h"
    and "hook_key (elapse p d h) = hook_key h"
    and "quotaErrorNotified (elapse p d h) = quotaErrorNotified h"
    and "clock (elapse p d h) = clock h + d"
  using assms by (auto simp: elapse_def Let_def)

lemma elapse_due:
  assumes "timers h = [(i, at, st)]" and "at \<le> clock h + d"
  shows "elapse p d h = save_callback p st (h\<lparr>clock := clock h + d, timers := []\<rparr>)"
  using assms by (simp add: elapse_def Let_def)

lemma save_catch_fields:
  "timers (save_catch e h) = timers h"
  "saveTimeoutRef (save_catch e h) = saveTimeoutRef h"
  "hook_key (save_catch e h) = hook_key h"
  "clock (save_catch e h) = clock h"
  "state (save_catch e h) = state h"
  by (simp_all add: save_catch_def)

lemma save_callback_fields:
  "timers (save_callback p st h) = timers h"
  "saveTimeoutRef (save_callback p st h) = saveTimeoutRef h"
  "hook_key (save_callback p st h) = hook_key h"
  "clock (save_callback p st h) = clock h"
  "state (save_callback p st h) = state h"
  by (simp_all add: save_callback_def save_catch_fields Let_def split: option.splits)

lemma save_callback_writes:
  "JSON_stringify p st = Some s \<Longrightarrow>
   writes (effects (save_callback p st h)) =
     writes (effects h) @ [(hook_key h, s, setItem p (length (writes (effects h))) (hook_key h) s)]"
  by (simp add: save_callback_def save_catch_def Let_def split: option.splits)

lemma run_append [simp]: "run p (xs @ ys) h = run p ys (run p xs h)"
  by (simp add: run_def)

lemma run_Cons [simp]: "run p (e # es) h = run p es (step p e h)"
  by (simp add: run_def)

lemma run_Nil [simp]: "run p [] h = h"
  by (simp add: run_def)

lemma burst_Cons [simp]: "burst ((v, d) # vds) = SetState v # Elapse d # burst vds"
  by (simp add: burst_def)

lemma burst_Nil [simp]: "burst [] = []"
  by (simp add: burst_def)

lemma burst_append [simp]: "burst (xs @ ys) = burst xs @ burst ys"
  by (simp add: burst_def)

text \<open>
  Claim C9. Construction alone arms the timer: with no replacement at all, nothing is
  written before the window of 1000 milliseconds has passed, and once it has, the initial
  (loaded and merged) state is written, once.
\<close>

theorem initial_state_is_written_after_window:
  assumes "JSON_stringify p (state (usePersistentState p key init)) = Some s"
    and "d < 1000" and "1000 \<le> D"
  shows "state (usePersistentState p key init) = snd (initial_state p key init) \<and>
         timers (usePersistentState p key init) = [(1, 1000, state (usePersistentState p key init))] \<and>
         writes (effects (run p [Elapse d] (usePersistentState p key init))) = [] \<and>
         writes (effects (run p [Elapse D] (usePersistentState p key init)))
           = [(key, s, setItem p 0 key s)]"
proof -
  let ?h = "usePersistentState p key init"
  note m = mount_fields [of p key init]
  from m have t: "timers ?h = [(1, 1000, state ?h)]" by simp
  from m assms(2) have nd: "clock ?h + d < 1000" by simp
  from m assms(3) have due: "1000 \<le> clock ?h + D" by simp
  have w0: "writes (effects ?h) = []" by (simp add: m initial_state_quiet)
  have a: "writes (effects (run p [Elapse d] ?h)) = []"
    using elapse_not_due(3) [OF t nd, of p] w0 by simp
  have "elapse p D ?h = save_callback p (state ?h) (?h\<lparr>clock := clock ?h + D, timers := []\<rparr>)"
    using t due by (rule elapse_due)
  then have b: "writes (effects (run p [Elapse D] ?h)) = [(key, s, setItem p 0 key s)]"
    using w0 by (simp add: save_callback_writes [OF assms(1)] mount_key)
  from m t a b show ?thesis by simp
qed

theorem initial_state_is_written_after_window_witness:
  "JSON_stringify sample_platform (state (usePersistentState sample_platform ''app'' (JObj [(''n'', JNum 0)])))
     = Some (sample_json (JObj [(''n'', JNum 0)])) \<and>
   (999::nat) < 1000 \<and> (1000::nat) \<le> 1000 \<and>
   writes (effects (run sample_platform [Elapse 999]
       (usePersistentState sample_platform ''app'' (JObj [(''n'', JNum 0)])))) = [] \<and>
   writes (effects (run sample_platform [Elapse 1000]
       (usePersistentState sample_platform ''app'' (JObj [(''n'', JNum 0)]))))
     = [(''app'', sample_json (JObj [(''n'', JNum 0)]), None)]"
proof -
  have st: "state (usePersistentState sample_platform ''app'' (JObj [(''n'', JNum 0)])) = JObj [(''n'', JNum 0)]"
    by (simp add: mount_fields initial_state_def initial_state_try_def sample_platform_def)
  have h1: "JSON_stringify sample_platform (state (usePersistentState sample_platform ''app'' (JObj [(''n'', JNum 0)])))
     = Some (sample_json (JObj [(''n'', JNum 0)]))"
    unfolding st by (simp add: sample_platform_def)
  have h2: "(999::nat) < 1000" and h3: "(1000::nat) \<le> 1000" by simp_all
  have s: "setItem sample_platform 0 ''app'' (sample_json (JObj [(''n'', JNum 0)])) = None"
    by (simp add: sample_platform_def)
  from initial_state_is_written_after_window [OF h1 h2 h3] s h1 show ?thesis by simp
qed

lemma mount_inv: "store_inv (usePersistentState p key init)"
  by (simp add: usePersistentState_def effect_body_def setTimeout_def store_inv_def
      one_pending_def Let_def split: prod.splits)

lemma setState_inv: "store_inv h \<Longrightarrow> store_inv (setState v h)"
proof (cases "quotaErrorNotified h")
  case True
  assume "store_inv h"
  with True have "timers h = []" by (simp add: store_inv_def)
  with True show ?thesis
    using setState_notified [of h v] by (simp add: store_inv_def one_pending_def)
next
  case False
  assume "store_inv h"
  then have "one_pending h" by (simp add: store_inv_def)
  with False show ?thesis
    using setState_normal [of h v] by (simp add: store_inv_def one_pending_def)
qed

lemma save_callback_inv:
  "timers h = [] \<Longrightarrow> store_inv (save_callback p st h)"
  by (simp add: store_inv_def one_pending_def save_callback_fields)

lemma elapse_inv: "store_inv h \<Longrightarrow> store_inv (elapse p d h)"
proof -
  assume inv: "store_inv h"
  then consider "timers h = []"
    | i at st where "timers h = [(i, at, st)]" "saveTimeoutRef h = Some i" "\<not> quotaErrorNotified h"
    by (auto simp: store_inv_def one_pending_def)
  then show ?thesis
  proof cases
    case 1
    then show ?thesis
      using inv elapse_idle [of h p d] by (simp add: store_inv_def one_pending_def)
  next
    case 2
    show ?thesis
    proof (cases "at \<le> clock h + d")
      case True
      with 2 show ?thesis by (simp add: elapse_due save_callback_inv)
    next
      case False
      with 2 show ?thesis
        using elapse_not_due [of h i at st d p] by (simp add: store_inv_def one_pending_def)
    qed
  qed
qed

lemma step_inv: "store_inv h \<Longrightarrow> store_inv (step p e h)"
  by (cases e) (simp_all add: setState_inv elapse_inv)

lemma run_inv: "store_inv h \<Longrightarrow> store_inv (run p evs h)"
  by (induction evs arbitrary: h) (simp_all add: step_inv)

lemma fold_save_callback_key:
  "hook_key (fold (\<lambda>(i, at, st). save_callback p st) ts g) = hook_key g"
  by (induction ts arbitrary: g) (auto simp: save_callback_fields)

lemma step_key: "hook_key (step p e h) = hook_key h"
proof (cases e)
  case (SetState v)
  then show ?thesis
    by (simp add: setState_def effect_body_def effect_cleanup_def clearTimeout_def
      setTimeout_def Let_def split: option.splits prod.splits)
next
  case SetSame
  then show ?thesis by simp
next
  case (Elapse d)
  then show ?thesis by (simp add: elapse_def Let_def fold_save_callback_key)
qed

lemma run_key: "hook_key (run p evs h) = hook_key h"
  by (induction evs arbitrary: h) (simp_all add: step_key)

lemma burst_quiet:
  assumes "one_pending h" and "\<not> quotaErrorNotified h" and "\<forall>(v, d) \<in> set pre. d < 1000"
  shows "\<exists>i. timers (run p (burst pre @ [SetState v]) h)
              = [(i, clock (run p (burst pre @ [SetState v]) h) + 1000, v)]
           \<and> effects (run p (burst pre @ [SetState v]) h) = effects h
           \<and> hook_key (run p (burst pre @ [SetState v]) h) = hook_key h"
  using assms
proof (induction pre arbitrary: h)
  case Nil
  then show ?case using setState_normal [of h v] by simp
next
  case (Cons a pre)
  obtain w d where a: "a = (w, d)" by (cases a)
  with Cons.prems have d: "d < 1000" by simp
  let ?h1 = "setState w h"
  let ?h2 = "elapse p d ?h1"
  note n1 = setState_normal [OF Cons.prems(1,2), of w]
  from n1 d have t1: "timers ?h1 = [(next_timer h, clock h + 1000, w)]"
    and nd: "clock ?h1 + d < clock h + 1000" by simp_all
  note n2 = elapse_not_due [OF t1 nd, of p]
  from n1 n2 have op2: "one_pending ?h2" and nq2: "\<not> quotaErrorNotified ?h2"
    by (simp_all add: one_pending_def)
  from Cons.prems(3) have rest: "\<forall>(v, d) \<in> set pre. d < 1000" by simp
  from Cons.IH [OF op2 nq2 rest] n1 n2 a show ?case by simp
qed

text \<open>
  Claim C2, as the code has it. After any history that has left the store in its normal
  state, a burst of replacements, each by a state other than the current one and each less
  than 1000 milliseconds after the one before, writes nothing while it lasts, and once
  1000 milliseconds have passed after the last replacement there is exactly one more
  write, of the serialised state of the last replacement.
\<close>

theorem burst_writes_final_state_once:
  assumes "h = run p hist (usePersistentState p key init)"
    and "\<not> quotaErrorNotified h"
    and "\<forall>(v, d) \<in> set pre. d < 1000"
    and "1000 \<le> D"
    and "JSON_stringify p v = Some s"
  shows "writes (effects (run p (burst pre @ [SetState v]) h)) = writes (effects h) \<and>
         writes (effects (run p (burst (pre @ [(v, D)])) h))
           = writes (effects h) @ [(key, s, setItem p (length (writes (effects h))) key s)]"
proof -
  from assms(1) have "store_inv h" by (simp add: run_inv mount_inv)
  then have op: "one_pending h" by (simp add: store_inv_def)
  from assms(1) have k: "hook_key h = key" by (simp add: run_key mount_key)
  let ?g = "run p (burst pre @ [SetState v]) h"
  from burst_quiet [OF op assms(2,3), of p v]
  obtain i where t: "timers ?g = [(i, clock ?g + 1000, v)]" and e: "effects ?g = effects h"
    and kg: "hook_key ?g = hook_key h" by blast
  from assms(4) have due: "clock ?g + 1000 \<le> clock ?g + D" by simp
  have "run p (burst (pre @ [(v, D)])) h = elapse p D ?g" by simp
  also have "\<dots> = save_callback p v (?g\<lparr>clock := clock ?g + D, timers := []\<rparr>)"
    using t due by (rule elapse_due)
  finally have "writes (effects (run p (burst (pre @ [(v, D)])) h))
      = writes (effects h) @ [(key, s, setItem p (length (writes (effects h))) key s)]"
    using e kg k by (simp add: save_callback_writes [OF assms(5)])
  with e show ?thesis by simp
qed

theorem burst_writes_final_state_once_witness:
  "\<not> quotaErrorNotified (run sample_platform [] (usePersistentState sample_platform ''app'' (JObj [(''n'', JNum 0)]))) \<and>
   (300::nat) < 1000 \<and> (999::nat) < 1000 \<and> (1000::nat) \<le> 1000 \<and>
   JSON_stringify sample_platform (JObj [(''n'', JNum 3)]) = Some (sample_json (JObj [(''n'', JNum 3)])) \<and>
   writes (effects (run sample_platform
       (burst ([(JObj [(''n'', JNum 1)], 300), (JObj [(''n'', JNum 2)], 999)] @ [(JObj [(''n'', JNum 3)], 1000)]))
       (run sample_platform [] (usePersistentState sample_platform ''app'' (JObj [(''n'', JNum 0)])))))
     = [(''app'', sample_json (JObj [(''n'', JNum 3)]), None)]"
proof -
  let ?h = "run sample_platform [] (usePersistentState sample_platform ''app'' (JObj [(''n'', JNum 0)]))"
  have h1: "?h = run sample_platform [] (usePersistentState sample_platform ''app'' (JObj [(''n'', JNum 0)]))"
    by simp
  have h2: "\<not> quotaErrorNotified ?h" by (simp add: mount_fields)
  have h3: "\<forall>(v, d) \<in> set [(JObj [(''n'', JNum 1)], 300), (JObj [(''n'', JNum 2)], 999)]. d < (1000::nat)"
    by simp
  have h4: "(1000::nat) \<le> 1000" by simp
  have h5: "JSON_stringify sample_platform (JObj [(''n'', JNum 3)]) = Some (sample_json (JObj [(''n'', JNum 3)]))"
    by (simp add: sample_platform_def)
  have w0: "writes (effects ?h) = []" by (simp add: mount_fields initial_state_quiet)
  have s: "setItem sample_platform 0 ''app'' (sample_json (JObj [(''n'', JNum 3)])) = None"
    by (simp add: sample_platform_def)
  from burst_writes_final_state_once [OF h1 h2 h3 h4 h5] w0 s
  have "writes (effects (run sample_platform
       (burst ([(JObj [(''n'', JNum 1)], 300), (JObj [(''n'', JNum 2)], 999)] @ [(JObj [(''n'', JNum 3)], 1000)])) ?h))
     = [(''app'', sample_json (JObj [(''n'', JNum 3)]), None)]"
    by simp
  with h2 h4 h5 show ?thesis by simp
qed

text \<open>
  The claim as the specification words it covers every update of a burst. An update that
  yields the current state again leaves the dependencies of the effect unchanged, so it
  neither cancels the pending timer nor arms a new one. Below, the state \<^verbatim>\<open>{n: 1}\<close> is set,
  set again to itself 600 milliseconds later, and replaced by \<^verbatim>\<open>{n: 2}\<close> after 600 more: the
  timer armed by the first update is due between the second and the third, and the
  intermediate state \<^verbatim>\<open>{n: 1}\<close> is written before the last state is.
\<close>

theorem unchanged_state_update_keeps_pending_write_counterexample:
  "(600::nat) < 1000 \<and>
   writes (effects (run sample_platform
       [SetState (JObj [(''n'', JNum 1)]), Elapse 600, SetSame, Elapse 600]
       (usePersistentState sample_platform ''app'' (JObj [(''n'', JNum 0)]))))
     = [(''app'', sample_json (JObj [(''n'', JNum 1)]), None)] \<and>
   writes (effects (run sample_platform
       [SetState (JObj [(''n'', JNum 1)]), Elapse 600, SetSame, Elapse 600,
        SetState (JObj [(''n'', JNum 2)]), Elapse 1000]
       (usePersistentState sample_platform ''app'' (JObj [(''n'', JNum 0)]))))
     = [(''app'', sample_json (JObj [(''n'', JNum 1)]), None),
        (''app'', sample_json (JObj [(''n'', JNum 2)]), None)]"
  by (simp add: sample_platform_def usePersistentState_def initial_state_def
      initial_state_try_def effect_body_def effect_cleanup_def setState_def setTimeout_def
      clearTimeout_def elapse_def save_callback_def save_catch_def Let_def)

lemma trace_ok_cong:
  "effects g = effects h \<Longrightarrow> quotaErrorNotified g = quotaErrorNotified h \<Longrightarrow> trace_ok g = trace_ok h"
  by (simp add: trace_ok_def)

lemma mount_trace_ok: "trace_ok (usePersistentState p key init)"
  by (simp add: trace_ok_def mount_fields initial_state_quiet)

lemma setState_trace_ok:
  assumes "store_inv h" and "trace_ok h"
  shows "trace_ok (setState v h)"
proof (cases "quotaErrorNotified h")
  case True
  with assms(1) have "timers h = []" by (simp add: store_inv_def)
  with True assms(2) show ?thesis
    using setState_notified [of h v] trace_ok_cong [of "setState v h" h] by simp
next
  case False
  from assms(1) have "one_pending h" by (simp add: store_inv_def)
  with False assms(2) show ?thesis
    using setState_normal [of h v] trace_ok_cong [of "setState v h" h] by simp
qed

lemma save_callback_trace_ok:
  assumes "\<not> quotaErrorNotified h" and "trace_ok h"
  shows "trace_ok (save_callback p st h)"
  using assms
  by (auto simp: trace_ok_def save_callback_def save_catch_def Let_def is_quota_failure_def
      quota_alert_def is_quota_error_def split: option.splits)

lemma elapse_trace_ok:
  assumes "store_inv h" and "trace_ok h"
  shows "trace_ok (elapse p d h)"
proof -
  from assms(1) consider "timers h = []"
    | i at st where "timers h = [(i, at, st)]" "\<not> quotaErrorNotified h"
    by (auto simp: store_inv_def one_pending_def)
  then show ?thesis
  proof cases
    case 1
    with assms(2) show ?thesis
      using elapse_idle [of h p d] trace_ok_cong [of "elapse p d h" h] by simp
  next
    case 2
    show ?thesis
    proof (cases "at \<le> clock h + d")
      case True
      have "trace_ok (h\<lparr>clock := clock h + d, timers := []\<rparr>)"
        using assms(2) trace_ok_cong [of "h\<lparr>clock := clock h + d, timers := []\<rparr>" h] by simp
      with 2 True show ?thesis
        by (simp add: elapse_due save_callback_trace_ok)
    next
      case False
      with 2 assms(2) show ?thesis
        using elapse_not_due [of h i at st d p] trace_ok_cong [of "elapse p d h" h] by simp
    qed
  qed
qed

lemma run_trace_ok:
  "store_inv h \<Longrightarrow> trace_ok h \<Longrightarrow> trace_ok (run p evs h)"
proof (induction evs arbitrary: h)
  case Nil
  then show ?case by simp
next
  case (Cons e evs)
  have "store_inv (step p e h)" using Cons.prems(1) by (rule step_inv)
  moreover have "trace_ok (step p e h)"
    using Cons.prems by (cases e) (simp_all add: setState_trace_ok elapse_trace_ok)
  ultimately show ?case using Cons.IH by simp
qed

lemma frozen_after_quota:
  "quotaErrorNotified h \<Longrightarrow> timers h = [] \<Longrightarrow>
   effects (run p evs h) = effects h \<and> quotaErrorNotified (run p evs h)"
proof (induction evs arbitrary: h)
  case Nil
  then show ?case by simp
next
  case (Cons e evs)
  have "quotaErrorNotified (step p e h) \<and> timers (step p e h) = [] \<and> effects (step p e h) = effects h"
    using Cons.prems setState_notified [of h] elapse_idle [of h p]
    by (cases e) simp_all
  with Cons.IH [of "step p e h"] show ?case by simp
qed

text \<open>
  Claim C3. Once a write has failed for lack of space, whatever the history before and
  whatever replacements and waiting follow: exactly one alert has been shown, the failed
  write is the last write and the first of its kind, no event has any further effect
  (no write is attempted, no warning is shown), and the flag stays set.
\<close>

theorem quota_exceeded_is_terminal:
  assumes "h = run p hist (usePersistentState p key init)"
    and "w \<in> set (writes (effects h))" and "is_quota_failure w"
  shows "alerts (effects h) = [quota_alert] \<and>
         (\<exists>ws. writes (effects h) = ws @ [w] \<and> (\<forall>w' \<in> set ws. \<not> is_quota_failure w')) \<and>
         effects (run p evs h) = effects h \<and>
         quotaErrorNotified (run p evs h)"
proof -
  from assms(1) have inv: "store_inv h" by (simp add: run_inv mount_inv)
  from assms(1) have ok: "trace_ok h" by (simp add: run_trace_ok mount_inv mount_trace_ok)
  from ok assms(2,3) have q: "quotaErrorNotified h"
    by (auto simp: trace_ok_def split: if_splits)
  with inv have t: "timers h = []" by (simp add: store_inv_def)
  from ok q obtain ws w0 where a: "alerts (effects h) = [quota_alert]"
    and ws: "writes (effects h) = ws @ [w0]" "is_quota_failure w0" "\<forall>w' \<in> set ws. \<not> is_quota_failure w'"
    by (auto simp: trace_ok_def)
  from ws assms(2,3) have "w = w0" by auto
  with ws a frozen_after_quota [OF q t, of p evs] show ?thesis by blast
qed

lemma full_run:
  "effects (run full_platform [Elapse 1000] (usePersistentState full_platform ''app'' (JObj [(''n'', JNum 0)])))
   = [GetItem ''app'', SetItem ''app'' (sample_json (JObj [(''n'', JNum 0)])) (Some (DOMException ''QuotaExceededError'')),
      ConsoleWarn ''LocalStorage quota exceeded.'', Alert quota_alert]"
  by (simp add: full_platform_def sample_platform_def usePersistentState_def initial_state_def
      initial_state_try_def effect_body_def setTimeout_def elapse_def save_callback_def save_catch_def
      is_quota_error_def quota_alert_def Let_def)

theorem quota_exceeded_is_terminal_witness:
  "(''app'', sample_json (JObj [(''n'', JNum 0)]), Some (DOMException ''QuotaExceededError''))
     \<in> set (writes (effects (run full_platform [Elapse 1000]
            (usePersistentState full_platform ''app'' (JObj [(''n'', JNum 0)]))))) \<and>
   is_quota_failure (''app'', sample_json (JObj [(''n'', JNum 0)]), Some (DOMException ''QuotaExceededError'')) \<and>
   alerts (effects (run full_platform [Elapse 1000]
            (usePersistentState full_platform ''app'' (JObj [(''n'', JNum 0)])))) = [quota_alert] \<and>
   effects (run full_platform [SetState (JObj [(''n'', JNum 1)]), Elapse 5000, SetState (JObj [(''n'', JNum 2)]), Elapse 5000]
     (run full_platform [Elapse 1000] (usePersistentState full_platform ''app'' (JObj [(''n'', JNum 0)]))))
     = effects (run full_platform [Elapse 1000] (usePersistentState full_platform ''app'' (JObj [(''n'', JNum 0)])))"
proof -
  let ?h = "run full_platform [Elapse 1000] (usePersistentState full_platform ''app'' (JObj [(''n'', JNum 0)]))"
  let ?w = "(''app'', sample_json (JObj [(''n'', JNum 0)]), Some (DOMException ''QuotaExceededError''))"
  have h1: "?h = run full_platform [Elapse 1000] (usePersistentState full_platform ''app'' (JObj [(''n'', JNum 0)]))"
    by simp
  have h2: "?w \<in> set (writes (effects ?h))" unfolding full_run by simp
  have h3: "is_quota_failure ?w" by (simp add: is_quota_failure_def is_quota_error_def)
  from quota_exceeded_is_terminal [OF h1 h2 h3,
      of "[SetState (JObj [(''n'', JNum 1)]), Elapse 5000, SetState (JObj [(''n'', JNum 2)]), Elapse 5000]"]
    h2 h3
  show ?thesis by blast
qed

text \<open>
  Claim C8, as the code has it. A write that fails for another reason than lack of space
  adds the attempted write to the effects and nothing else: nothing is logged and no
  warning is shown. The flag stays clear, and the next replacement arms the timer again,
  so that its state is written 1000 milliseconds later.
\<close>

theorem other_write_failure_is_silent_and_transient:
  assumes "timers h = [(i, at, st)]" and "at \<le> clock h + d" and "\<not> quotaErrorNotified h"
    and "JSON_stringify p st = Some s"
    and "setItem p (length (writes (effects h))) (hook_key h) s = Some e"
    and "\<not> is_quota_error e"
    and "JSON_stringify p v = Some s'"
  shows "effects (elapse p d h) = effects h @ [SetItem (hook_key h) s (Some e)] \<and>
         \<not> quotaErrorNotified (elapse p d h) \<and>
         writes (effects (run p [SetState v, Elapse 1000] (elapse p d h)))
           = writes (effects h) @
               [(hook_key h, s, Some e),
                (hook_key h, s', setItem p (Suc (length (writes (effects h)))) (hook_key h) s')]"
proof -
  let ?g = "elapse p d h"
  have g: "?g = save_callback p st (h\<lparr>clock := clock h + d, timers := []\<rparr>)"
    using assms(1,2) by (rule elapse_due)
  have e1: "effects ?g = effects h @ [SetItem (hook_key h) s (Some e)]"
    and q1: "\<not> quotaErrorNotified ?g"
    using assms(3-6) by (simp_all add: g save_callback_def save_catch_def Let_def)
  have t1: "timers ?g = []" and k1: "hook_key ?g = hook_key h"
    by (simp_all add: g save_callback_fields)
  then have op: "one_pending ?g" by (simp add: one_pending_def)
  note n = setState_normal [OF op q1, of v]
  let ?g2 = "setState v ?g"
  from n have t2: "timers ?g2 = [(next_timer ?g, clock ?g + 1000, v)]"
    and due: "clock ?g + 1000 \<le> clock ?g2 + 1000" by simp_all
  have "elapse p 1000 ?g2 = save_callback p v (?g2\<lparr>clock := clock ?g2 + 1000, timers := []\<rparr>)"
    using t2 due by (rule elapse_due)
  then have "writes (effects (run p [SetState v, Elapse 1000] ?g))
           = writes (effects h) @
               [(hook_key h, s, Some e),
                (hook_key h, s', setItem p (Suc (length (writes (effects h)))) (hook_key h) s')]"
    using n e1 k1 by (simp add: save_callback_writes [OF assms(7)])
  with e1 q1 show ?thesis by blast
qed

lemma blocked_mount:
  "timers (usePersistentState blocked_platform ''app'' (JObj [(''n'', JNum 0)])) = [(1, 1000, JObj [(''n'', JNum 0)])]"
  "clock (usePersistentState blocked_platform ''app'' (JObj [(''n'', JNum 0)])) = 0"
  "effects (usePersistentState blocked_platform ''app'' (JObj [(''n'', JNum 0)])) = [GetItem ''app'']"
  "hook_key (usePersistentState blocked_platform ''app'' (JObj [(''n'', JNum 0)])) = ''app''"
  by (simp_all add: mount_fields mount_key initial_state_def initial_state_try_def
      blocked_platform_def sample_platform_def)

theorem other_write_failure_is_silent_and_transient_witness:
  "timers (usePersistentState blocked_platform ''app'' (JObj [(''n'', JNum 0)]))
     = [(1, 1000, JObj [(''n'', JNum 0)])] \<and>
   1000 \<le> clock (usePersistentState blocked_platform ''app'' (JObj [(''n'', JNum 0)])) + 1000 \<and>
   \<not> quotaErrorNotified (usePersistentState blocked_platform ''app'' (JObj [(''n'', JNum 0)])) \<and>
   \<not> is_quota_error (DOMException ''SecurityError'') \<and>
   effects (elapse blocked_platform 1000 (usePersistentState blocked_platform ''app'' (JObj [(''n'', JNum 0)])))
     = [GetItem ''app'',
        SetItem ''app'' (sample_json (JObj [(''n'', JNum 0)])) (Some (DOMException ''SecurityError''))] \<and>
   writes (effects (run blocked_platform [SetState (JObj [(''n'', JNum 1)]), Elapse 1000]
       (elapse blocked_platform 1000 (usePersistentState blocked_platform ''app'' (JObj [(''n'', JNum 0)])))))
     = [(''app'', sample_json (JObj [(''n'', JNum 0)]), Some (DOMException ''SecurityError'')),
        (''app'', sample_json (JObj [(''n'', JNum 1)]), Some (DOMException ''SecurityError''))]"
proof -
  let ?h = "usePersistentState blocked_platform ''app'' (JObj [(''n'', JNum 0)])"
  have h1: "timers ?h = [(1, 1000, JObj [(''n'', JNum 0)])]" by (simp add: blocked_mount)
  have h2: "1000 \<le> clock ?h + 1000" by simp
  have h3: "\<not> quotaErrorNotified ?h" by (simp add: mount_fields)
  have h4: "JSON_stringify blocked_platform (JObj [(''n'', JNum 0)]) = Some (sample_json (JObj [(''n'', JNum 0)]))"
    by (simp add: blocked_platform_def sample_platform_def)
  have h5: "setItem blocked_platform (length (writes (effects ?h))) (hook_key ?h)
      (sample_json (JObj [(''n'', JNum 0)])) = Some (DOMException ''SecurityError'')"
    by (simp add: blocked_platform_def sample_platform_def)
  have h6: "\<not> is_quota_error (DOMException ''SecurityError'')" by (simp add: is_quota_error_def)
  have h7: "JSON_stringify blocked_platform (JObj [(''n'', JNum 1)]) = Some (sample_json (JObj [(''n'', JNum 1)]))"
    by (simp add: blocked_platform_def sample_platform_def)
  have s: "setItem blocked_platform (Suc 0) ''app'' (sample_json (JObj [(''n'', JNum 1)]))
      = Some (DOMException ''SecurityError'')"
    by (simp add: blocked_platform_def sample_platform_def)
  from other_write_failure_is_silent_and_transient [OF h1 h2 h3 h4 h5 h6 h7] s
  have "effects (elapse blocked_platform 1000 ?h)
     = [GetItem ''app'',
        SetItem ''app'' (sample_json (JObj [(''n'', JNum 0)])) (Some (DOMException ''SecurityError''))] \<and>
   writes (effects (run blocked_platform [SetState (JObj [(''n'', JNum 1)]), Elapse 1000]
       (elapse blocked_platform 1000 ?h)))
     = [(''app'', sample_json (JObj [(''n'', JNum 0)]), Some (DOMException ''SecurityError'')),
        (''app'', sample_json (JObj [(''n'', JNum 1)]), Some (DOMException ''SecurityError''))]"
    by (simp add: blocked_mount)
  with h1 h2 h3 h6 show ?thesis by blast
qed

text \<open>
  The claim as the specification words it also has such a failure logged. On a storage
  that refuses every write with a \<^verbatim>\<open>SecurityError\<close>, the write of the initial state fails and
  the console stays empty.
\<close>

theorem write_failure_is_not_logged_counterexample:
  "writes (effects (run blocked_platform [Elapse 1000]
       (usePersistentState blocked_platform ''app'' (JObj [(''n'', JNum 0)]))))
     = [(''app'', sample_json (JObj [(''n'', JNum 0)]), Some (DOMException ''SecurityError''))] \<and>
   \<not> is_quota_error (DOMException ''SecurityError'') \<and>
   console (effects (run blocked_platform [Elapse 1000]
       (usePersistentState blocked_platform ''app'' (JObj [(''n'', JNum 0)])))) = []"
  by (simp add: blocked_platform_def sample_platform_def usePersistentState_def initial_state_def
      initial_state_try_def effect_body_def setTimeout_def elapse_def save_callback_def save_catch_def
      is_quota_error_def Let_def)

section \<open>Properties of the merge on a store\<close>

lemma cell_append_old: "a < length h \<Longrightarrow> cell (h @ xs) a = cell h a"
  by (simp add: cell_def nth_append)

lemma cell_fresh: "cell h (length h) = None"
  by (simp add: cell_def)

lemma own_props_h_fresh:
  "own_props_h (h @ [HObject fs]) (HRef (length h)) = fs"
  by (simp add: own_props_h_def cell_def)

lemma assign_fresh_keeps_old:
  "a < length h \<Longrightarrow> cell (assign (h @ [ob]) (length h) k v) a = cell h a"
  by (auto simp: assign_def cell_def nth_append split: option.splits hobj.splits)

text \<open>
  Claim C6, as the code has it. For a loaded value that is \<^verbatim>\<open>null\<close>, \<^verbatim>\<open>undefined\<close> or not
  object-like, the merge returns, at any depth bound above zero, a new object at an address
  not in use before, with the fields of the defaults; the store is otherwise unchanged, and
  assigning to a field of the result changes no object that existed before. The values of
  the fields are those of the defaults, references included: nested structures are shared.
\<close>

theorem merge_of_non_structure_is_shallow_copy:
  assumes "\<not> truthy_h loaded \<or> typeof_h loaded \<noteq> ''object''"
  shows "mergeDefaults_h (Suc n) loaded D h
           = Some (HRef (length h), h @ [HObject (own_props_h h D)]) \<and>
         cell h (length h) = None \<and>
         own_props_h (h @ [HObject (own_props_h h D)]) (HRef (length h)) = own_props_h h D \<and>
         (\<forall>a k v. a < length h \<longrightarrow>
            cell (assign (h @ [HObject (own_props_h h D)]) (length h) k v) a = cell h a)"
  using assms by (auto simp: alloc_def cell_fresh own_props_h_fresh assign_fresh_keeps_old)

theorem merge_of_non_structure_is_shallow_copy_witness:
  "\<not> truthy_h HNull \<and>
   mergeDefaults_h (Suc 0) HNull (HRef 0) shared_defaults_heap
     = Some (HRef 2, shared_defaults_heap @ [HObject [(''a'', HRef 1), (''b'', HNum 5)]]) \<and>
   cell (assign (shared_defaults_heap @ [HObject [(''a'', HRef 1), (''b'', HNum 5)]]) 2 ''b'' (HNum 6)) 0
     = Some (HObject [(''a'', HRef 1), (''b'', HNum 5)])"
proof -
  have h: "\<not> truthy_h HNull \<or> typeof_h HNull \<noteq> ''object''" by simp
  have l: "length shared_defaults_heap = 2" by (simp add: shared_defaults_heap_def)
  have p: "own_props_h shared_defaults_heap (HRef 0) = [(''a'', HRef 1), (''b'', HNum 5)]"
    by (simp add: shared_defaults_heap_def own_props_h_def cell_def)
  have c: "cell shared_defaults_heap 0 = Some (HObject [(''a'', HRef 1), (''b'', HNum 5)])"
    by (simp add: shared_defaults_heap_def cell_def)
  from merge_of_non_structure_is_shallow_copy [OF h, of 0 "HRef 0" shared_defaults_heap]
  show ?thesis unfolding l p using h c by simp
qed

text \<open>
  The claim as the specification words it extends to nested structures. With defaults
  \<^verbatim>\<open>{a: {x: 0}, b: 5}\<close> at address 0, the result of merging \<^verbatim>\<open>null\<close> holds in \<^verbatim>\<open>a\<close> the
  address of the defaults' own nested object; after \<^verbatim>\<open>result.a.x = 7\<close> the defaults read
  7 at \<^verbatim>\<open>a.x\<close>.
\<close>

theorem merge_of_null_shares_nested_counterexample:
  "mergeDefaults_h 1 HNull (HRef 0) shared_defaults_heap
     = Some (HRef 2, shared_defaults_heap @ [HObject [(''a'', HRef 1), (''b'', HNum 5)]]) \<and>
   read_path shared_defaults_heap (HRef 0) [''a'', ''x''] = HNum 0 \<and>
   get_h (shared_defaults_heap @ [HObject [(''a'', HRef 1), (''b'', HNum 5)]]) (HRef 2) ''a'' = HRef 1 \<and>
   read_path (assign (shared_defaults_heap @ [HObject [(''a'', HRef 1), (''b'', HNum 5)]]) 1 ''x'' (HNum 7))
     (HRef 0) [''a'', ''x''] = HNum 7"
  by (simp add: shared_defaults_heap_def alloc_def own_props_h_def cell_def get_h_def assign_def
      define_prop_def)

text \<open>
  The merge on the store misses a default named like a member of \<^verbatim>\<open>Object.prototype\<close> as
  the merge on values does: with the defaults \<^verbatim>\<open>{toString: 5, n: 1}\<close> at address 0 and the
  loaded value \<^verbatim>\<open>{}\<close> at address 1, the result at address 2 is \<^verbatim>\<open>{n: 1}\<close>.
\<close>

lemma store_example_toString:
  "mergeDefaults_h 2 (HRef 1) (HRef 0) [HObject [(''toString'', HNum 5), (''n'', HNum 1)], HObject []]
   = Some (HRef 2, [HObject [(''toString'', HNum 5), (''n'', HNum 1)], HObject [], HObject [(''n'', HNum 1)]])"
  by (simp add: alloc_def own_props_h_def cell_def get_h_def assign_def proto_of_def
      define_prop_def not_index_letter object_prototype_methods_def Let_def numeral_2_eq_2)

section \<open>The two models agree\<close>

lemma map_le_Some: "c \<subseteq>\<^sub>m c' \<Longrightarrow> c a = Some x \<Longrightarrow> c' a = Some x"
  by (metis domI map_le_def)

lemma repr_mono:
  "c \<subseteq>\<^sub>m c' \<Longrightarrow> repr c hv v \<Longrightarrow> repr c' hv v"
  "c \<subseteq>\<^sub>m c' \<Longrightarrow> repr_fields c hfs fs \<Longrightarrow> repr_fields c' hfs fs"
  "c \<subseteq>\<^sub>m c' \<Longrightarrow> repr_elems c hxs xs \<Longrightarrow> repr_elems c' hxs xs"
  by (induction c hv v and c hfs fs and c hxs xs rule: repr_repr_fields_repr_elems.induct)
     (auto split: hval.splits option.splits hobj.splits list.splits dest: map_le_Some)

lemma repr_truthy: "repr c hv v \<Longrightarrow> truthy_h hv = truthy v"
  by (cases v) (auto split: hval.splits)

lemma repr_typeof: "repr c hv v \<Longrightarrow> typeof_h hv = typeof v"
  by (cases v) (auto split: hval.splits)

lemma repr_fields_keys: "repr_fields c hfs fs \<Longrightarrow> map fst hfs = map fst fs"
  by (induction fs arbitrary: hfs) (auto split: list.splits)

lemma repr_fields_lookup:
  "repr_fields c hfs fs \<Longrightarrow>
     repr c (case map_of hfs k of None \<Rightarrow> HUndefined | Some w \<Rightarrow> w)
            (case map_of fs k of None \<Rightarrow> JUndefined | Some w \<Rightarrow> w)"
  by (induction fs arbitrary: hfs) (auto split: list.splits)

lemma repr_fields_update:
  "repr_fields c hfs fs \<Longrightarrow> repr c hv v \<Longrightarrow>
   repr_fields c (AList.update k hv hfs) (AList.update k v fs)"
  by (induction fs arbitrary: hfs) (auto split: list.splits)

lemma repr_fields_insert:
  "repr_fields c hfs fs \<Longrightarrow> repr c hv v \<Longrightarrow>
   repr_fields c (insert_prop k hv hfs) (insert_prop k v fs)"
proof (induction fs arbitrary: hfs)
  case Nil
  then show ?case by simp
next
  case (Cons a fs)
  obtain k' v' where a: "a = (k', v')" by (cases a)
  with Cons.prems(1) obtain hv' hfs' where hfs: "hfs = (k', hv') # hfs'"
    and r: "repr c hv' v'" and rest: "repr_fields c hfs' fs"
    by (auto split: list.splits)
  from Cons.IH [OF rest Cons.prems(2)] a hfs r rest Cons.prems(2) show ?case by auto
qed

lemma repr_fields_define:
  assumes "repr_fields c hfs fs" and "repr c hv v"
  shows "repr_fields c (define_prop k hv hfs) (define_prop k v fs)"
proof -
  from assms(1) have "fst ` set hfs = fst ` set fs"
    by (metis repr_fields_keys set_map)
  with assms show ?thesis
    by (simp add: define_prop_def repr_fields_update repr_fields_insert)
qed

lemma repr_elems_zip:
  "repr_elems c hxs xs \<Longrightarrow> length ks = length xs \<Longrightarrow> repr_fields c (zip ks hxs) (zip ks xs)"
proof (induction xs arbitrary: hxs ks)
  case Nil
  then show ?case by simp
next
  case (Cons x xs)
  then show ?case by (cases ks) (auto split: list.splits)
qed

lemma repr_elems_length: "repr_elems c hxs xs \<Longrightarrow> length hxs = length xs"
  by (induction xs arbitrary: hxs) (auto split: list.splits)

lemma repr_own_props:
  assumes "repr c hv v" and "c \<subseteq>\<^sub>m cell h"
  shows "repr_fields c (own_props_h h hv) (own_props v)"
proof (cases v)
  case (JArr xs)
  with assms(1) obtain a hxs where hv: "hv = HRef a" and ca: "c a = Some (HArray hxs)"
    and el: "repr_elems c hxs xs"
    by (auto split: hval.splits option.splits hobj.splits)
  from assms(2) ca have "cell h a = Some (HArray hxs)" by (rule map_le_Some)
  with hv el JArr show ?thesis
    using repr_elems_length [OF el] repr_elems_zip [OF el, of "map index_key [0..<length xs]"]
    by (simp add: own_props_h_def)
next
  case (JObj fs)
  with assms(1) obtain a hfs where hv: "hv = HRef a" and ca: "c a = Some (HObject hfs)"
    and fl: "repr_fields c hfs fs"
    by (auto split: hval.splits option.splits hobj.splits)
  from assms(2) ca have "cell h a = Some (HObject hfs)" by (rule map_le_Some)
  with hv fl JObj show ?thesis by (simp add: own_props_h_def)
next
  case (JObjP fs p)
  with assms(1) obtain a hfs hp where hv: "hv = HRef a" and ca: "c a = Some (HObjectP hfs hp)"
    and fl: "repr_fields c hfs fs"
    by (auto split: hval.splits option.splits hobj.splits)
  from assms(2) ca have "cell h a = Some (HObjectP hfs hp)" by (rule map_le_Some)
  with hv fl JObjP show ?thesis by (simp add: own_props_h_def)
qed (use assms in \<open>auto simp: own_props_h_def\<close>)

lemma repr_isArray:
  assumes "repr c hv v" and "c \<subseteq>\<^sub>m cell h"
  shows "isArray_h h hv = isArray v"
proof (cases v)
  case (JArr xs)
  with assms(1) obtain a hxs where hv: "hv = HRef a" and ca: "c a = Some (HArray hxs)"
    by (auto split: hval.splits option.splits hobj.splits)
  from assms(2) ca have "cell h a = Some (HArray hxs)" by (rule map_le_Some)
  with hv JArr show ?thesis by (simp add: isArray_h_def)
next
  case (JObj fs)
  with assms(1) obtain a hfs where hv: "hv = HRef a" and ca: "c a = Some (HObject hfs)"
    by (auto split: hval.splits option.splits hobj.splits)
  from assms(2) ca have "cell h a = Some (HObject hfs)" by (rule map_le_Some)
  with hv JObj show ?thesis by (simp add: isArray_h_def)
next
  case (JObjP fs p)
  with assms(1) obtain a hfs hp where hv: "hv = HRef a" and ca: "c a = Some (HObjectP hfs hp)"
    by (auto split: hval.splits option.splits hobj.splits)
  from assms(2) ca have "cell h a = Some (HObjectP hfs hp)" by (rule map_le_Some)
  with hv JObjP show ?thesis by (simp add: isArray_h_def)
qed (use assms in \<open>auto simp: isArray_h_def\<close>)

lemma repr_null_iff:
  "repr c hv v \<Longrightarrow> (hv = HUndefined \<or> hv = HNull) = (v = JUndefined \<or> v = JNull)"
  by (cases v) (auto split: hval.splits)

lemma fuel_mono:
  "mergeDefaults_h n l d h = Some r \<Longrightarrow> mergeDefaults_h (n + m) l d h = Some r"
  "forIn_h n d ks a h = Some g \<Longrightarrow> forIn_h (n + m) d ks a h = Some g"
proof (induction n l d h and n d ks a h arbitrary: r and g rule: mergeDefaults_h_forIn_h.induct)
  case (1 loaded defaults h)
  then show ?case by simp
next
  case (2 n loaded defaults h)
  then show ?case
    by (auto simp: Let_def split: if_splits prod.splits option.splits)
next
  case (3 n defaults result h)
  then show ?case by simp
next
  case (4 n defaults key rest result h)
  then show ?case
    by (auto simp: Let_def split: if_splits prod.splits option.splits)
qed

lemma ordinary_key_not_proto: "ordinary_key k \<Longrightarrow> k \<noteq> ''__proto__''"
  by (simp add: ordinary_key_def)

lemma cell_assign_same:
  "cell h r = Some (HObject rfs) \<Longrightarrow> ordinary_key k \<Longrightarrow>
   cell (assign h r k v) r = Some (HObject (define_prop k v rfs))"
  by (auto simp: assign_def cell_def ordinary_key_def split: if_splits)

lemma cell_assign_other: "a \<noteq> r \<Longrightarrow> cell (assign h r k v) a = cell h a"
  by (auto simp: assign_def cell_def split: option.splits hobj.splits)

lemma length_assign: "length (assign h r k v) = length h"
  by (auto simp: assign_def split: option.splits hobj.splits)

lemma map_le_assign: "c \<subseteq>\<^sub>m cell h \<Longrightarrow> c r = None \<Longrightarrow> c \<subseteq>\<^sub>m cell (assign h r k v)"
  unfolding map_le_def by (metis cell_assign_other domIff)

lemma own_props_h_cell: "cell h a = Some (HObject fs) \<Longrightarrow> own_props_h h (HRef a) = fs"
  by (simp add: own_props_h_def)

lemma get_h_cell:
  "cell h a = Some (HObject fs) \<Longrightarrow> ordinary_key k \<Longrightarrow>
   get_h h (HRef a) k = (case map_of fs k of None \<Rightarrow> HUndefined | Some w \<Rightarrow> w)"
  by (simp add: get_h_def own_props_h_cell proto_of_def ordinary_key_def split: option.splits)

lemma map_le_cell_None: "c \<subseteq>\<^sub>m cell h \<Longrightarrow> c (length h) = None"
  by (metis cell_def less_irrefl map_le_Some not_Some_eq option.distinct(1))

lemma cell_alloc_old: "a < length h \<Longrightarrow> cell (h @ [ob]) a = cell h a"
  by (simp add: cell_def nth_append)

lemma cell_alloc_new: "cell (h @ [ob]) (length h) = Some ob"
  by (simp add: cell_def)

lemma map_le_alloc: "c \<subseteq>\<^sub>m cell h \<Longrightarrow> c \<subseteq>\<^sub>m cell (h @ [ob])"
  unfolding map_le_def
  by (metis cell_alloc_old cell_def domIff option.distinct(1))

lemma grows_trans:
  "grows c h c1 h1 \<Longrightarrow> grows c1 h1 c2 h2 \<Longrightarrow> grows c h c2 h2"
  unfolding grows_def by (auto intro: map_le_trans)

lemma grows_same_length:
  "grows c g2 c' g' \<Longrightarrow> length g2 = length g \<Longrightarrow> grows c g c' g'"
  unfolding grows_def by auto

lemma grows_refl: "c \<subseteq>\<^sub>m cell h \<Longrightarrow> grows c h c h"
  by (simp add: grows_def)

lemma repr_plain_object:
  assumes "repr c d D" and "plain_defaults D" and "is_plain_object D"
  obtains da dfs Dfs where "d = HRef da" "D = JObj Dfs" "c da = Some (HObject dfs)" "repr_fields c dfs Dfs"
proof -
  from assms(2,3) obtain Dfs where D: "D = JObj Dfs" using plain_defaults_object by blast
  with assms(1) obtain da dfs where "d = HRef da" "c da = Some (HObject dfs)" "repr_fields c dfs Dfs"
    by (auto split: hval.splits option.splits hobj.splits)
  with D that show ?thesis by blast
qed

lemma map_le_upd_fresh: "c r = None \<Longrightarrow> c \<subseteq>\<^sub>m c(r \<mapsto> ob)"
  by (auto simp: map_le_def)

lemma upd_le_cell: "c \<subseteq>\<^sub>m cell h \<Longrightarrow> cell h r = Some ob \<Longrightarrow> c(r \<mapsto> ob) \<subseteq>\<^sub>m cell h"
  by (auto simp: map_le_def)

lemma distinct_map_of: "distinct (map fst fs) \<Longrightarrow> (k, v) \<in> set fs \<Longrightarrow> map_of fs k = Some v"
  by simp

lemma merge_sim_primitive:
  assumes le: "c \<subseteq>\<^sub>m cell h" and d: "c da = Some (HObject dfs)" and fl: "repr_fields c dfs Dfs"
    and no: "\<not> truthy_h l \<or> typeof_h l \<noteq> ''object''"
  shows "\<exists>v h' c'. mergeDefaults_h (Suc n) l (HRef da) h = Some (v, h') \<and> grows c h c' h' \<and>
           repr c' v (JObj Dfs) \<and> (\<forall>a<length h. cell h' a = cell h a)"
proof -
  let ?r = "length h"
  let ?h' = "h @ [HObject dfs]"
  let ?c' = "c(?r \<mapsto> HObject dfs)"
  from le d have cd: "cell h da = Some (HObject dfs)" by (rule map_le_Some)
  have m: "mergeDefaults_h (Suc n) l (HRef da) h = Some (HRef ?r, ?h')"
    using no cd by (auto simp: alloc_def own_props_h_cell)
  have cr: "c ?r = None" using le by (rule map_le_cell_None)
  then have cc: "c \<subseteq>\<^sub>m ?c'" by (rule map_le_upd_fresh)
  have "?c' \<subseteq>\<^sub>m cell ?h'"
    using map_le_alloc [OF le, of "HObject dfs"] cell_alloc_new [of h "HObject dfs"]
    by (rule upd_le_cell)
  with cc have g: "grows c h ?c' ?h'" by (simp add: grows_def)
  from cc fl have "repr_fields ?c' dfs Dfs" by (rule repr_mono(2))
  then have r: "repr ?c' (HRef ?r) (JObj Dfs)" by simp
  from m g r show ?thesis by (auto simp: cell_alloc_old)
qed

lemma merge_simulation:
  "c \<subseteq>\<^sub>m cell h \<Longrightarrow> repr c l L \<Longrightarrow> repr c d D \<Longrightarrow> plain_defaults D \<Longrightarrow> is_plain_object D \<Longrightarrow>
    \<exists>n v h' c'. mergeDefaults_h n l d h = Some (v, h') \<and> grows c h c' h' \<and>
      repr c' v (mergeDefaults L D) \<and> (\<forall>a<length h. cell h' a = cell h a)"
  "c \<subseteq>\<^sub>m cell g \<Longrightarrow> c da = Some (HObject dfs) \<Longrightarrow> repr_fields c dfs Dfs \<Longrightarrow>
    distinct (map fst Dfs) \<Longrightarrow> (\<forall>key \<in> fst ` set Dfs. ordinary_key key) \<Longrightarrow>
    (\<forall>v \<in> snd ` set Dfs. plain_defaults v) \<Longrightarrow> set rest \<subseteq> set Dfs \<Longrightarrow>
    r < length g \<Longrightarrow> c r = None \<Longrightarrow> cell g r = Some (HObject rfs) \<Longrightarrow>
    result = (R, JObjectPrototype) \<Longrightarrow> repr_fields c rfs R \<Longrightarrow>
    \<exists>n g' c' rfs'. forIn_h n (HRef da) (map fst rest) r g = Some g' \<and> grows c g c' g' \<and>
      cell g' r = Some (HObject rfs') \<and> repr_fields c' rfs' (fst (forIn rest result)) \<and>
      snd (forIn rest result) = JObjectPrototype \<and>
      (\<forall>a<length g. a \<noteq> r \<longrightarrow> cell g' a = cell g a)"
proof (induction L D and rest result arbitrary: c h l d and c g da dfs Dfs r rfs R
    rule: mergeDefaults_forIn.induct)
  case (1 loaded defaults)
  note le = \<open>c \<subseteq>\<^sub>m cell h\<close> and rl = \<open>repr c l loaded\<close>
  from \<open>repr c d defaults\<close> \<open>plain_defaults defaults\<close> \<open>is_plain_object defaults\<close>
  obtain da dfs Dfs where d: "d = HRef da" and D: "defaults = JObj Dfs"
    and cda: "c da = Some (HObject dfs)" and fl: "repr_fields c dfs Dfs"
    by (rule repr_plain_object)
  have tt: "truthy_h l = truthy loaded" "typeof_h l = typeof loaded"
    using rl by (simp_all add: repr_truthy repr_typeof)
  show ?case
  proof (cases "\<not> truthy loaded \<or> typeof loaded \<noteq> ''object''")
    case True
    then have no: "\<not> truthy_h l \<or> typeof_h l \<noteq> ''object''" by (simp add: tt)
    from True D have "mergeDefaults loaded defaults = JObj Dfs" by (simp add: mergeDefaults.simps)
    with merge_sim_primitive [OF le cda fl no, of 0] d show ?thesis by metis
  next
    case False
    then have yes: "\<not> (\<not> truthy_h l \<or> typeof_h l \<noteq> ''object'')" by (simp add: tt)
    let ?r = "length h"
    let ?rfs = "own_props_h h l"
    let ?h1 = "h @ [HObject ?rfs]"
    let ?res = "(own_props loaded, JObjectPrototype)"
    have le1: "c \<subseteq>\<^sub>m cell ?h1" using le by (rule map_le_alloc)
    from \<open>plain_defaults defaults\<close> D
    have dist: "distinct (map fst Dfs)" and ok: "\<forall>key \<in> fst ` set Dfs. ordinary_key key"
      and dk: "\<forall>v \<in> snd ` set Dfs. plain_defaults v"
      by (auto simp: ordinary_key_def)
    have sub: "set (own_props defaults) \<subseteq> set Dfs" using D by simp
    have rlen: "?r < length ?h1" by simp
    have cr: "c ?r = None" using le by (rule map_le_cell_None)
    have cellr: "cell ?h1 ?r = Some (HObject ?rfs)" by (rule cell_alloc_new)
    have rf: "repr_fields c ?rfs (own_props loaded)" using rl le by (rule repr_own_props)
    from "1.IH" [OF False le1 cda fl dist ok dk sub rlen cr cellr refl rf]
    obtain n g' c' rfs' where
      run: "forIn_h n (HRef da) (map fst (own_props defaults)) ?r ?h1 = Some g'"
      and gr: "grows c ?h1 c' g'"
      and cg: "cell g' ?r = Some (HObject rfs')"
      and rr: "repr_fields c' rfs' (fst (forIn (own_props defaults) ?res))"
      and pr: "snd (forIn (own_props defaults) ?res) = JObjectPrototype"
      and same: "\<forall>a<length ?h1. a \<noteq> ?r \<longrightarrow> cell g' a = cell ?h1 a"
      by blast
    from le1 cda have "cell ?h1 da = Some (HObject dfs)" by (rule map_le_Some)
    then have keys: "map fst (own_props_h ?h1 d) = map fst (own_props defaults)"
      using d D repr_fields_keys [OF fl] by (simp add: own_props_h_cell)
    have m: "mergeDefaults_h (Suc n) l d h = Some (HRef ?r, g')"
      using yes run keys d by (simp add: alloc_def)
    let ?c'' = "c'(?r \<mapsto> HObject rfs')"
    from gr have cc': "c \<subseteq>\<^sub>m c'" and c'g: "c' \<subseteq>\<^sub>m cell g'" and len: "length ?h1 \<le> length g'"
      and old: "\<forall>a<length ?h1. c' a = c a"
      by (simp_all add: grows_def)
    from old cr have c'r: "c' ?r = None" by simp
    then have c'c'': "c' \<subseteq>\<^sub>m ?c''" by (rule map_le_upd_fresh)
    have c''g: "?c'' \<subseteq>\<^sub>m cell g'" using c'g cg by (rule upd_le_cell)
    have g2: "grows c h ?c'' g'"
      using cc' c'c'' c''g len old by (auto simp: grows_def intro: map_le_trans)
    from c'c'' rr have "repr_fields ?c'' rfs' (fst (forIn (own_props defaults) ?res))"
      by (rule repr_mono(2))
    moreover have "mergeDefaults loaded defaults = JObj (fst (forIn (own_props defaults) ?res))"
      using False pr
      by (cases "forIn (own_props defaults) ?res") (simp add: mergeDefaults.simps make_object_def)
    ultimately have r2: "repr ?c'' (HRef ?r) (mergeDefaults loaded defaults)" by simp
    have s2: "\<forall>a<length h. cell g' a = cell h a"
      using same by (simp add: cell_alloc_old)
    from m g2 r2 s2 show ?thesis by blast
  qed
next
  case (2 result)
  have "forIn_h 0 (HRef da) (map fst []) r g = Some g" by simp
  moreover have "grows c g c g" using "2.prems"(1) by (rule grows_refl)
  ultimately show ?case using "2.prems"(10,11,12) by (metis forIn.simps(1) fst_conv snd_conv)
next
  case (3 key defaultValue rest result)
  note le = \<open>c \<subseteq>\<^sub>m cell g\<close> and cda = \<open>c da = Some (HObject dfs)\<close>
    and fl = \<open>repr_fields c dfs Dfs\<close> and dist = \<open>distinct (map fst Dfs)\<close>
    and ok = \<open>\<forall>key \<in> fst ` set Dfs. ordinary_key key\<close>
    and dk = \<open>\<forall>v \<in> snd ` set Dfs. plain_defaults v\<close>
    and rlen = \<open>r < length g\<close> and cr = \<open>c r = None\<close>
    and cellr = \<open>cell g r = Some (HObject rfs)\<close> and rf = \<open>repr_fields c rfs R\<close>
    and res = \<open>result = (R, JObjectPrototype)\<close>
  from \<open>set ((key, defaultValue) # rest) \<subseteq> set Dfs\<close>
  have mem: "(key, defaultValue) \<in> set Dfs" and sub: "set rest \<subseteq> set Dfs" by simp_all
  from dist mem have lk: "map_of Dfs key = Some defaultValue" by (rule distinct_map_of)
  from dk mem have pdv: "plain_defaults defaultValue" by force
  from ok mem have okk: "ordinary_key key" by force
  let ?lv = "get_prop (fst result) (snd result) key"
  let ?hdv = "get_h g (HRef da) key"
  let ?hlv = "get_h g (HRef r) key"
  have lv: "?lv = own_or_undefined R key" using res by (simp add: get_prop_ordinary [OF okk])
  have sp: "\<And>v. set_prop (fst result) (snd result) key v = (define_prop key v R, JObjectPrototype)"
    using res by (simp add: set_prop_ordinary [OF okk])
  from le cda have cellda: "cell g da = Some (HObject dfs)" by (rule map_le_Some)
  have rdv: "repr c ?hdv defaultValue"
    using repr_fields_lookup [OF fl, of key] lk by (simp add: get_h_cell [OF cellda okk])
  have rlv: "repr c ?hlv ?lv"
    using repr_fields_lookup [OF rf, of key]
    by (simp add: get_h_cell [OF cellr okk] lv own_or_undefined_def)
  have nul: "(?hlv = HUndefined \<or> ?hlv = HNull) = (?lv = JUndefined \<or> ?lv = JNull)"
    using rlv by (rule repr_null_iff)
  have po: "(typeof_h ?hdv = ''object'' \<and> ?hdv \<noteq> HNull \<and> \<not> isArray_h g ?hdv)
      = (typeof defaultValue = ''object'' \<and> defaultValue \<noteq> JNull \<and> \<not> isArray defaultValue)"
    using repr_typeof [OF rdv] repr_isArray [OF rdv le] repr_null_iff [OF rdv]
    by (cases defaultValue) auto
  show ?case
  proof (cases "?lv = JUndefined \<or> ?lv = JNull")
    case True
    let ?g2 = "assign g r key ?hdv"
    let ?res2 = "(define_prop key defaultValue R, JObjectPrototype)"
    have step: "forIn ((key, defaultValue) # rest) result = forIn rest ?res2"
      using True by (simp add: Let_def sp)
    have le2: "c \<subseteq>\<^sub>m cell ?g2" using le cr by (rule map_le_assign)
    have rlen2: "r < length ?g2" using rlen by (simp add: length_assign)
    have cellr2: "cell ?g2 r = Some (HObject (define_prop key ?hdv rfs))"
      using cellr okk by (rule cell_assign_same)
    have rf2: "repr_fields c (define_prop key ?hdv rfs) (define_prop key defaultValue R)"
      using rf rdv by (rule repr_fields_define)
    have eq: "(if ?lv = JUndefined \<or> ?lv = JNull
         then set_prop (fst result) (snd result) key defaultValue
         else if typeof defaultValue = ''object'' \<and> defaultValue \<noteq> JNull \<and> \<not> isArray defaultValue
         then set_prop (fst result) (snd result) key (mergeDefaults ?lv defaultValue)
         else result) = ?res2"
      using True by (simp add: sp)
    from "3.IH"(2) [OF refl le2 cda fl dist ok dk sub rlen2 cr cellr2 eq rf2]
    obtain n g' c' rfs' where
      run: "forIn_h n (HRef da) (map fst rest) r ?g2 = Some g'"
      and gr: "grows c ?g2 c' g'"
      and cg: "cell g' r = Some (HObject rfs')"
      and rr: "repr_fields c' rfs' (fst (forIn rest ?res2))"
      and pr: "snd (forIn rest ?res2) = JObjectPrototype"
      and same: "\<forall>a<length ?g2. a \<noteq> r \<longrightarrow> cell g' a = cell ?g2 a"
      unfolding eq by blast
    have m: "forIn_h n (HRef da) (map fst ((key, defaultValue) # rest)) r g = Some g'"
      using run True nul by (simp add: Let_def)
    have gr': "grows c g c' g'" using gr length_assign by (rule grows_same_length)
    have same': "\<forall>a<length g. a \<noteq> r \<longrightarrow> cell g' a = cell g a"
      using same by (simp add: length_assign cell_assign_other)
    from m gr' cg rr pr same' show ?thesis unfolding step by blast
  next
    case nn: False
    then have nnh: "\<not> (?hlv = HUndefined \<or> ?hlv = HNull)" using nul by blast
    show ?thesis
    proof (cases "typeof defaultValue = ''object'' \<and> defaultValue \<noteq> JNull \<and> \<not> isArray defaultValue")
      case True
      then have ipo: "is_plain_object defaultValue" by (simp add: is_plain_object_def)
      from True po have hpo: "typeof_h ?hdv = ''object'' \<and> ?hdv \<noteq> HNull \<and> \<not> isArray_h g ?hdv"
        by blast
      let ?m = "mergeDefaults ?lv defaultValue"
      let ?res2 = "(define_prop key ?m R, JObjectPrototype)"
      have eq: "(if ?lv = JUndefined \<or> ?lv = JNull
           then set_prop (fst result) (snd result) key defaultValue
           else if typeof defaultValue = ''object'' \<and> defaultValue \<noteq> JNull \<and> \<not> isArray defaultValue
           then set_prop (fst result) (snd result) key (mergeDefaults ?lv defaultValue)
           else result) = ?res2"
        using nn True by (simp add: sp)
      have step: "forIn ((key, defaultValue) # rest) result = forIn rest ?res2"
        using eq by (simp add: Let_def)
      from "3.IH"(1) [OF refl nn True le rlv rdv pdv ipo]
      obtain n1 v g1 c1 where
        m1: "mergeDefaults_h n1 ?hlv ?hdv g = Some (v, g1)"
        and gr1: "grows c g c1 g1"
        and rv: "repr c1 v ?m"
        and same1: "\<forall>a<length g. cell g1 a = cell g a"
        by blast
      from gr1 have cc1: "c \<subseteq>\<^sub>m c1" and c1g1: "c1 \<subseteq>\<^sub>m cell g1" and len1: "length g \<le> length g1"
        and old1: "\<forall>a<length g. c1 a = c a"
        by (simp_all add: grows_def)
      let ?g2 = "assign g1 r key v"
      from old1 rlen cr have c1r: "c1 r = None" by simp
      have le2: "c1 \<subseteq>\<^sub>m cell ?g2" using c1g1 c1r by (rule map_le_assign)
      from cc1 cda have cda1: "c1 da = Some (HObject dfs)" by (rule map_le_Some)
      from cc1 fl have fl1: "repr_fields c1 dfs Dfs" by (rule repr_mono(2))
      have rlen2: "r < length ?g2" using rlen len1 by (simp add: length_assign)
      from same1 rlen cellr have cellr1: "cell g1 r = Some (HObject rfs)" by simp
      then have cellr2: "cell ?g2 r = Some (HObject (define_prop key v rfs))"
        using okk by (rule cell_assign_same)
      from cc1 rf have "repr_fields c1 rfs R" by (rule repr_mono(2))
      then have rf2: "repr_fields c1 (define_prop key v rfs) (define_prop key ?m R)"
        using rv by (rule repr_fields_define)
      from "3.IH"(2) [OF refl le2 cda1 fl1 dist ok dk sub rlen2 c1r cellr2 eq rf2]
      obtain n2 g' c' rfs' where
        run: "forIn_h n2 (HRef da) (map fst rest) r ?g2 = Some g'"
        and gr: "grows c1 ?g2 c' g'"
        and cg: "cell g' r = Some (HObject rfs')"
        and rr: "repr_fields c' rfs' (fst (forIn rest ?res2))"
        and pr: "snd (forIn rest ?res2) = JObjectPrototype"
        and same: "\<forall>a<length ?g2. a \<noteq> r \<longrightarrow> cell g' a = cell ?g2 a"
        unfolding eq by blast
      have m1': "mergeDefaults_h (n1 + n2) ?hlv ?hdv g = Some (v, g1)"
        using m1 by (rule fuel_mono(1))
      have run': "forIn_h (n1 + n2) (HRef da) (map fst rest) r ?g2 = Some g'"
        using fuel_mono(2) [OF run, of n1] by (simp add: add.commute)
      have m: "forIn_h (n1 + n2) (HRef da) (map fst ((key, defaultValue) # rest)) r g = Some g'"
        using m1' run' by (simp add: Let_def if_not_P [OF nnh] if_P [OF hpo]
            del: de_Morgan_disj de_Morgan_conj)
      have gr12: "grows c1 g1 c' g'" using gr length_assign by (rule grows_same_length)
      have gr': "grows c g c' g'" using gr1 gr12 by (rule grows_trans)
      have same': "\<forall>a<length g. a \<noteq> r \<longrightarrow> cell g' a = cell g a"
        using same same1 len1 by (simp add: length_assign cell_assign_other)
      from m gr' cg rr pr same' show ?thesis unfolding step by blast
    next
      case False
      have eq: "(if ?lv = JUndefined \<or> ?lv = JNull
           then set_prop (fst result) (snd result) key defaultValue
           else if typeof defaultValue = ''object'' \<and> defaultValue \<noteq> JNull \<and> \<not> isArray defaultValue
           then set_prop (fst result) (snd result) key (mergeDefaults ?lv defaultValue)
           else result) = result"
        using nn False by (simp del: de_Morgan_disj de_Morgan_conj)
      have step: "forIn ((key, defaultValue) # rest) result = forIn rest result"
        using eq by (simp add: Let_def del: de_Morgan_disj de_Morgan_conj)
      have eq': "(if ?lv = JUndefined \<or> ?lv = JNull
           then set_prop (fst result) (snd result) key defaultValue
           else if typeof defaultValue = ''object'' \<and> defaultValue \<noteq> JNull \<and> \<not> isArray defaultValue
           then set_prop (fst result) (snd result) key (mergeDefaults ?lv defaultValue)
           else result) = (R, JObjectPrototype)"
        using eq res by simp
      from "3.IH"(2) [OF refl le cda fl dist ok dk sub rlen cr cellr eq' rf]
      obtain n g' c' rfs' where
        run: "forIn_h n (HRef da) (map fst rest) r g = Some g'"
        and gr: "grows c g c' g'"
        and cg: "cell g' r = Some (HObject rfs')"
        and rr: "repr_fields c' rfs' (fst (forIn rest result))"
        and pr: "snd (forIn rest result) = JObjectPrototype"
        and same: "\<forall>a<length g. a \<noteq> r \<longrightarrow> cell g' a = cell g a"
        unfolding eq by blast
      have npo: "\<not> (typeof_h ?hdv = ''object'' \<and> ?hdv \<noteq> HNull \<and> \<not> isArray_h g ?hdv)"
        using po False by blast
      have m: "forIn_h n (HRef da) (map fst ((key, defaultValue) # rest)) r g = Some g'"
        using run by (simp add: Let_def if_not_P [OF npo] if_not_P [OF nnh]
            del: de_Morgan_disj de_Morgan_conj)
      from m gr cg rr pr same show ?thesis unfolding step by blast
    qed
  qed
qed

text \<open>
  Where the loaded value and the defaults are trees in the store and the defaults are
  plain all the way down, the merge on the store returns for some bound on the depth,
  changes no object that existed before the call, and returns a representation of what
  the merge on values returns. The properties of \<open>mergeDefaults\<close> proved above are thus
  properties of the values that the function on the store computes.
\<close>

theorem mergeDefaults_h_refines:
  assumes "repr (cell h) l L" and "repr (cell h) d D" and "plain_defaults D" and "is_plain_object D"
  shows "\<exists>n v h'. mergeDefaults_h n l d h = Some (v, h') \<and>
           repr (cell h') v (mergeDefaults L D) \<and> (\<forall>a<length h. cell h' a = cell h a)"
proof -
  have "cell h \<subseteq>\<^sub>m cell h" by simp
  from merge_simulation(1) [OF this assms]
  obtain n v h' c' where m: "mergeDefaults_h n l d h = Some (v, h')" and g: "grows (cell h) h c' h'"
    and r: "repr c' v (mergeDefaults L D)" and s: "\<forall>a<length h. cell h' a = cell h a"
    by blast
  from g have "c' \<subseteq>\<^sub>m cell h'" by (simp add: grows_def)
  then have "repr (cell h') v (mergeDefaults L D)" using r by (rule repr_mono(1))
  with m s show ?thesis by blast
qed

end
